theory Spec2Isabelle
  imports Complex_Main
begin

section \<open>Audio augmentation for wake-word training data\<close>

text \<open>
  A shallow embedding of \<^verbatim>\<open>scripts/preprocessing/augment_data.py\<close> (class
  \<^verbatim>\<open>AudioAugmenter\<close>). Conventions of the model:
  \<^item> an audio buffer is a one-dimensional (mono) NumPy array of samples, modelled as a
    \<open>real list\<close>; float64 samples are modelled as real numbers, so rounding and
    overflow of the floating-point arithmetic are not part of the model;
  \<^item> an exception raised by Python or NumPy is a value \<open>Inl e\<close> of a sum type;
  \<^item> a NumPy division by zero does not raise: it yields \<open>inf\<close> or \<open>nan\<close> samples.
    Such an array is the value \<open>NonFinite n\<close> (\<open>n\<close> samples, none of them a finite
    number);
  \<^item> the random module is modelled by an entropy value \<open>u\<close> that each call decodes:
    every result that the library can return is decoded from some \<open>u\<close>.
\<close>

subsection \<open>Python and NumPy primitives\<close>

datatype py_error = ZeroDivisionError | ValueError

datatype np_array = Finite "real list" | NonFinite nat

fun np_len :: "np_array \<Rightarrow> nat" where
  "np_len (Finite xs) = length xs"
| "np_len (NonFinite n) = n"

text \<open>\<^verbatim>\<open>np.mean(a)\<close> and \<^verbatim>\<open>a ** 2\<close> on a one-dimensional array.\<close>

definition np_mean :: "real list \<Rightarrow> real" where
  "np_mean xs = sum_list xs / real (length xs)"

definition np_square :: "real list \<Rightarrow> real list" where
  "np_square xs = map (\<lambda>x. x ^ 2) xs"

text \<open>\<^verbatim>\<open>np.tile(a, reps)\<close>: \<open>reps\<close> copies of \<open>a\<close>, end to end.\<close>

definition np_tile :: "'a list \<Rightarrow> nat \<Rightarrow> 'a list" where
  "np_tile xs reps = concat (replicate reps xs)"

text \<open>
  \<^verbatim>\<open>np.arange(0, stop, step)\<close> with a float step: \<open>ceil(stop / step)\<close> values
  \<open>0, step, 2 * step, ...\<close> (none when that number is negative); a zero step makes the
  length computation fail with a ValueError.
\<close>

definition np_arange :: "nat \<Rightarrow> real \<Rightarrow> py_error + real list" where
  "np_arange stop step =
     (if step = 0 then Inl ValueError
      else Inr (map (\<lambda>i. real i * step) [0..<nat \<lceil>real stop / step\<rceil>]))"

text \<open>
  \<^verbatim>\<open>np.linspace(0, stop, num)\<close>: \<open>num\<close> evenly spaced values from 0 to \<open>stop\<close>
  inclusive; the single value 0 when \<open>num = 1\<close>.
\<close>

definition np_linspace :: "nat \<Rightarrow> nat \<Rightarrow> real list" where
  "np_linspace stop num =
     (if num = 1 then [0]
      else map (\<lambda>i. real i * (real stop / real (num - 1))) [0..<num])"

text \<open>
  \<^verbatim>\<open>np.interp(x, np.arange(len(fp)), fp)\<close>: piecewise linear interpolation through
  the points \<open>(j, fp[j])\<close>, constant outside them; an empty \<open>fp\<close> is a ValueError
  (\<^verbatim>\<open>array of sample points is empty\<close>).
\<close>

definition interp_at :: "real list \<Rightarrow> real \<Rightarrow> real" where
  "interp_at fp x =
     (if x < 0 then fp ! 0
      else if real (length fp - 1) \<le> x then fp ! (length fp - 1)
      else let j = nat \<lfloor>x\<rfloor>
           in fp ! j + (x - real j) * (fp ! Suc j - fp ! j))"

definition np_interp :: "real list \<Rightarrow> real list \<Rightarrow> py_error + real list" where
  "np_interp xs fp = (if fp = [] then Inl ValueError else Inr (map (interp_at fp) xs))"

text \<open>
  \<^verbatim>\<open>random.randint(a, b)\<close> returns some \<open>N\<close> with \<open>a \<le> N \<le> b\<close>;
  \<^verbatim>\<open>random.sample(population, k)\<close> returns \<open>k\<close> elements at distinct positions, in
  selection order. Both decode the entropy \<open>u\<close>.
\<close>

definition random_randint :: "nat \<Rightarrow> nat \<Rightarrow> nat \<Rightarrow> nat" where
  "random_randint u a b = a + u mod (b - a + 1)"

fun random_sample :: "nat \<Rightarrow> 'a list \<Rightarrow> nat \<Rightarrow> 'a list" where
  "random_sample u xs 0 = []"
| "random_sample u xs (Suc k) =
     (if xs = [] then []
      else let j = u mod length xs
           in xs ! j # random_sample (u div length xs) (take j xs @ drop (Suc j) xs) k)"

subsection \<open>Signal transforms\<close>

text \<open>
  \<^verbatim>\<open>add_noise\<close>, first half (the alignment step): the noise is tiled and truncated
  when it is shorter than the audio, and cropped at a random offset otherwise.
  \<^verbatim>\<open>len(audio) / len(noise)\<close> is a Python division of integers: it raises
  ZeroDivisionError for an empty noise buffer.
\<close>

definition add_noise_align :: "nat \<Rightarrow> 'a list \<Rightarrow> nat \<Rightarrow> py_error + 'a list" where
  "add_noise_align u noise len_audio =
     (if length noise < len_audio then
        (if length noise = 0 then Inl ZeroDivisionError
         else let repeats = nat \<lceil>real len_audio / real (length noise)\<rceil>
              in Inr (take len_audio (np_tile noise repeats)))
      else let start = random_randint u 0 (length noise - len_audio)
           in Inr (take len_audio (drop start noise)))"

text \<open>
  \<^verbatim>\<open>add_noise\<close>, second half (the mixer): the scaling factor computed from the two
  mean-square powers, and the sum \<^verbatim>\<open>audio + scale * noise\<close>.
\<close>

definition add_noise_scale :: "real list \<Rightarrow> real list \<Rightarrow> real \<Rightarrow> real" where
  "add_noise_scale audio noise snr_db =
     (let signal_power = np_mean (np_square audio);
          noise_power = np_mean (np_square noise);
          snr_linear = 10 powr (snr_db / 10)
      in sqrt (signal_power / (snr_linear * noise_power)))"

definition add_noise_mix :: "real list \<Rightarrow> real list \<Rightarrow> real \<Rightarrow> np_array" where
  "add_noise_mix audio noise snr_db =
     (if audio = [] then Finite []
      else if np_mean (np_square noise) = 0 then NonFinite (length audio)
      else let scale = add_noise_scale audio noise snr_db
           in Finite (map2 (\<lambda>a n. a + scale * n) audio noise))"

definition add_noise :: "nat \<Rightarrow> real list \<Rightarrow> real list \<Rightarrow> real \<Rightarrow> py_error + np_array" where
  "add_noise u audio noise snr_db =
     (case add_noise_align u noise (length audio) of
        Inl e \<Rightarrow> Inl e
      | Inr noise' \<Rightarrow> Inr (add_noise_mix audio noise' snr_db))"

definition change_volume :: "real list \<Rightarrow> real \<Rightarrow> real list" where
  "change_volume audio factor = map (\<lambda>x. x * factor) audio"

text \<open>
  \<^verbatim>\<open>time_stretch\<close>: the index positions below \<open>len(audio)\<close>, truncated to integers
  (\<^verbatim>\<open>astype(int)\<close>; the positions are not negative, so truncation is the floor), and
  the samples gathered there.
\<close>

definition time_stretch :: "'a list \<Rightarrow> real \<Rightarrow> py_error + 'a list" where
  "time_stretch audio rate =
     (case np_arange (length audio) rate of
        Inl e \<Rightarrow> Inl e
      | Inr indices \<Rightarrow>
          Inr (map (\<lambda>x. audio ! nat \<lfloor>x\<rfloor>)
                 (filter (\<lambda>x. x < real (length audio)) indices)))"

subsection \<open>Files, the log and the state\<close>

text \<open>
  A \<^verbatim>\<open>pathlib.Path\<close> is its directory, its stem and its suffix. The outside world
  \<open>w\<close> fixes what \<^verbatim>\<open>soundfile\<close> does: \<open>sf_read w p\<close> is the buffer and the sample
  rate read from \<open>p\<close>, or \<open>None\<close> when \<^verbatim>\<open>sf.read\<close> raises; \<open>sf_write w p\<close> tells
  whether \<^verbatim>\<open>sf.write\<close> to \<open>p\<close> succeeds (a job writes each of its paths once). The
  directory listings and the entropy of the random module belong to the world too. The
  input directories and the output directory are disjoint, so a read never sees a write
  of the run.
\<close>

datatype path = Path (dir: string) (stem: string) (suffix: string)

datatype log_level = INFO | ERROR

datatype log_message =
    FailedToLoad path
  | FailedToSave path
  | Banner
  | Title
  | FoundPositive nat
  | FoundBackground nat
  | NoPositiveSamples
  | Augmenting nat nat path
  | Created nat
  | Complete
  | OriginalSamples nat
  | AugmentedSamples nat
  | TotalSize nat

record world =
  sf_read :: "path \<Rightarrow> (real list \<times> nat) option"
  sf_write :: "path \<Rightarrow> bool"
  entropy :: "nat \<Rightarrow> nat"
  positive_glob :: "path list"
  background_rglob :: "path list"
  augmented_dir :: string

text \<open>
  The state that the program changes: the files written so far (path, samples, sample
  rate), the log, and the number of calls made to the random module.
\<close>

record state =
  written :: "(path \<times> np_array \<times> nat) list"
  logged :: "(log_level \<times> log_message) list"
  draws :: nat

definition logger :: "log_level \<Rightarrow> log_message \<Rightarrow> state \<Rightarrow> state" where
  "logger lvl msg st = st\<lparr>logged := logged st @ [(lvl, msg)]\<rparr>"

definition load_audio :: "world \<Rightarrow> path \<Rightarrow> state \<Rightarrow> (real list \<times> nat) option \<times> state" where
  "load_audio w file_path st =
     (case sf_read w file_path of
        Some (data, sr) \<Rightarrow> (Some (data, sr), st)
      | None \<Rightarrow> (None, logger ERROR (FailedToLoad file_path) st))"

definition save_audio :: "world \<Rightarrow> np_array \<Rightarrow> nat \<Rightarrow> path \<Rightarrow> state \<Rightarrow> bool \<times> state" where
  "save_audio w audio sample_rate output_path st =
     (if sf_write w output_path
      then (True, st\<lparr>written := written st @ [(output_path, audio, sample_rate)]\<rparr>)
      else (False, logger ERROR (FailedToSave output_path) st))"

subsection \<open>The augmentation policy\<close>

text \<open>
  The output file \<^verbatim>\<open>augmented_dir / f"{output_prefix}_{base_name}_{tag}.wav"\<close>.
\<close>

definition variant_path :: "world \<Rightarrow> string \<Rightarrow> string \<Rightarrow> string \<Rightarrow> path" where
  "variant_path w output_prefix base_name tag =
     Path (augmented_dir w) (output_prefix @ ''_'' @ base_name @ ''_'' @ tag) ''.wav''"

text \<open>The decimal digits of a natural number (\<^verbatim>\<open>f"{i}"\<close>).\<close>

fun str_nat :: "nat \<Rightarrow> string" where
  "str_nat n =
     (if n < 10 then [''0123456789'' ! n]
      else str_nat (n div 10) @ [''0123456789'' ! (n mod 10)])"

declare str_nat.simps [simp del]

text \<open>
  The literal lists \<^verbatim>\<open>[0.7, 1.3]\<close> and \<^verbatim>\<open>[0.9, 1.1]\<close>, each factor with the text
  that the f-string of the file name prints for it.
\<close>

definition vol_factors :: "(real \<times> string) list" where
  "vol_factors = [(7 / 10, ''0.7''), (13 / 10, ''1.3'')]"

definition speed_factors :: "(real \<times> string) list" where
  "speed_factors = [(9 / 10, ''0.9''), (11 / 10, ''1.1'')]"

fun volume_loop ::
  "world \<Rightarrow> real list \<Rightarrow> nat \<Rightarrow> string \<Rightarrow> string \<Rightarrow> (real \<times> string) list \<Rightarrow>
   nat \<times> state \<Rightarrow> nat \<times> state" where
  "volume_loop w audio sr output_prefix base_name [] (count, st) = (count, st)"
| "volume_loop w audio sr output_prefix base_name ((vol_factor, txt) # rest) (count, st) =
     (let augmented = change_volume audio vol_factor;
          output_path = variant_path w output_prefix base_name (''vol'' @ txt);
          (ok, st') = save_audio w (Finite augmented) sr output_path st
      in volume_loop w audio sr output_prefix base_name rest
           (if ok then count + 1 else count, st'))"

fun speed_loop ::
  "world \<Rightarrow> real list \<Rightarrow> nat \<Rightarrow> string \<Rightarrow> string \<Rightarrow> (real \<times> string) list \<Rightarrow>
   nat \<times> state \<Rightarrow> (py_error + nat) \<times> state" where
  "speed_loop w audio sr output_prefix base_name [] (count, st) = (Inr count, st)"
| "speed_loop w audio sr output_prefix base_name ((speed_factor, txt) # rest) (count, st) =
     (case time_stretch audio speed_factor of
        Inl e \<Rightarrow> (Inl e, st)
      | Inr augmented \<Rightarrow>
          (let output_path = variant_path w output_prefix base_name (''speed'' @ txt);
               (ok, st') = save_audio w (Finite augmented) sr output_path st
           in speed_loop w audio sr output_prefix base_name rest
                (if ok then count + 1 else count, st')))"

text \<open>
  The resampling of a noise buffer inside \<^verbatim>\<open>augment_sample\<close>, applied only when
  the rates differ. \<^verbatim>\<open>len(noise) * sr / noise_sr\<close> is a Python division.
\<close>

definition resample_noise :: "real list \<Rightarrow> nat \<Rightarrow> nat \<Rightarrow> py_error + real list" where
  "resample_noise noise noise_sr sr =
     (if noise_sr \<noteq> sr then
        (if noise_sr = 0 then Inl ZeroDivisionError
         else np_interp
                (np_linspace (length noise)
                   (nat \<lfloor>real (length noise * sr) / real noise_sr\<rfloor>))
                noise)
      else Inr noise)"

fun noise_loop ::
  "world \<Rightarrow> real list \<Rightarrow> nat \<Rightarrow> string \<Rightarrow> string \<Rightarrow> (nat \<times> path) list \<Rightarrow>
   nat \<times> state \<Rightarrow> (py_error + nat) \<times> state" where
  "noise_loop w audio sr output_prefix base_name [] (count, st) = (Inr count, st)"
| "noise_loop w audio sr output_prefix base_name ((i, bg_file) # rest) (count, st) =
     (case load_audio w bg_file st of
        (None, st1) \<Rightarrow> noise_loop w audio sr output_prefix base_name rest (count, st1)
      | (Some (noise, noise_sr), st1) \<Rightarrow>
          (case resample_noise noise noise_sr sr of
             Inl e \<Rightarrow> (Inl e, st1)
           | Inr noise' \<Rightarrow>
               (case add_noise (entropy w (draws st1)) audio noise' 15 of
                  Inl e \<Rightarrow> (Inl e, st1)
                | Inr augmented \<Rightarrow>
                    (let st2 = st1\<lparr>draws := Suc (draws st1)\<rparr>;
                         output_path =
                           variant_path w output_prefix base_name (''noise'' @ str_nat i);
                         (ok, st3) = save_audio w augmented sr output_path st2
                     in noise_loop w audio sr output_prefix base_name rest
                          (if ok then count + 1 else count, st3)))))"

definition augment_sample ::
  "world \<Rightarrow> path \<Rightarrow> path list \<Rightarrow> string \<Rightarrow> state \<Rightarrow> (py_error + nat) \<times> state" where
  "augment_sample w audio_path background_files output_prefix st =
     (case load_audio w audio_path st of
        (None, st0) \<Rightarrow> (Inr 0, st0)
      | (Some (audio, sr), st0) \<Rightarrow>
          (let base_name = stem audio_path;
               output_path = variant_path w output_prefix base_name ''original'';
               (ok, st1) = save_audio w (Finite audio) sr output_path st0;
               (count, st2) =
                 volume_loop w audio sr output_prefix base_name vol_factors
                   (if ok then 1 else 0, st1)
           in case speed_loop w audio sr output_prefix base_name speed_factors (count, st2) of
                (Inl e, st3) \<Rightarrow> (Inl e, st3)
              | (Inr count', st3) \<Rightarrow>
                  (if background_files \<noteq> [] then
                     (let picks = random_sample (entropy w (draws st3)) background_files
                                    (min 3 (length background_files));
                          st4 = st3\<lparr>draws := Suc (draws st3)\<rparr>
                      in noise_loop w audio sr output_prefix base_name
                           (enumerate 0 picks) (count', st4))
                   else (Inr count', st3))))"

fun augment_loop ::
  "world \<Rightarrow> path list \<Rightarrow> nat \<Rightarrow> (nat \<times> path) list \<Rightarrow> nat \<times> state \<Rightarrow>
   (py_error + nat) \<times> state" where
  "augment_loop w background_files n [] (total_augmented, st) = (Inr total_augmented, st)"
| "augment_loop w background_files n ((i, audio_file) # rest) (total_augmented, st) =
     (case augment_sample w audio_file background_files ''aug''
             (logger INFO (Augmenting i n audio_file) st) of
        (Inl e, st1) \<Rightarrow> (Inl e, st1)
      | (Inr count, st1) \<Rightarrow>
          augment_loop w background_files n rest
            (total_augmented + count, logger INFO (Created count) st1))"

definition augment_all :: "world \<Rightarrow> state \<Rightarrow> (py_error + unit) \<times> state" where
  "augment_all w st =
     (let st1 = logger INFO Banner (logger INFO Title (logger INFO Banner st));
          positive_files = positive_glob w;
          st2 = logger INFO (FoundPositive (length positive_files)) st1;
          background_files = background_rglob w;
          st3 = logger INFO (FoundBackground (length background_files)) st2
      in if positive_files = [] then (Inr (), logger ERROR NoPositiveSamples st3)
         else
           (case augment_loop w background_files (length positive_files)
                   (enumerate 1 positive_files) (0, st3) of
              (Inl e, st4) \<Rightarrow> (Inl e, st4)
            | (Inr total_augmented, st4) \<Rightarrow>
                (Inr (),
                 logger INFO Banner
                   (logger INFO (TotalSize (length positive_files + total_augmented))
                      (logger INFO (AugmentedSamples total_augmented)
                         (logger INFO (OriginalSamples (length positive_files))
                            (logger INFO Complete (logger INFO Banner st4))))))))"

subsection \<open>The specification's mixer\<close>




subsection \<open>The specification's augmentation policy\<close>

text \<open>
  The variants that the policy attempts for a loaded sample, as (path, samples, rate):
  the unmodified copy, the volume variants at 0.7 and 1.3 and the speed variants at 0.9
  and 1.1, in this order. \<open>kept\<close> keeps the variants whose write succeeds, and
  \<open>noise_paths\<close> names one noise variant for each selected background file that loads.
\<close>

definition the_result :: "py_error + 'a list \<Rightarrow> 'a list" where
  "the_result r = (case r of Inl e \<Rightarrow> [] | Inr xs \<Rightarrow> xs)"

definition fixed_variants ::
  "world \<Rightarrow> string \<Rightarrow> string \<Rightarrow> real list \<Rightarrow> nat \<Rightarrow> (path \<times> np_array \<times> nat) list" where
  "fixed_variants w output_prefix base_name audio sr =
     [(variant_path w output_prefix base_name ''original'', Finite audio, sr),
      (variant_path w output_prefix base_name ''vol0.7'',
         Finite (change_volume audio (7 / 10)), sr),
      (variant_path w output_prefix base_name ''vol1.3'',
         Finite (change_volume audio (13 / 10)), sr),
      (variant_path w output_prefix base_name ''speed0.9'',
         Finite (the_result (time_stretch audio (9 / 10))), sr),
      (variant_path w output_prefix base_name ''speed1.1'',
         Finite (the_result (time_stretch audio (11 / 10))), sr)]"

definition kept :: "world \<Rightarrow> (path \<times> np_array \<times> nat) list \<Rightarrow> (path \<times> np_array \<times> nat) list" where
  "kept w variants = filter (\<lambda>v. sf_write w (fst v)) variants"

definition noise_paths :: "world \<Rightarrow> string \<Rightarrow> string \<Rightarrow> (nat \<times> path) list \<Rightarrow> path list" where
  "noise_paths w output_prefix base_name picks =
     map (\<lambda>(i, bg_file). variant_path w output_prefix base_name (''noise'' @ str_nat i))
       (filter (\<lambda>(i, bg_file). sf_read w bg_file \<noteq> None) picks)"

text \<open>
  A background file is usable at the rate \<open>sr\<close> when it does not load, or when its buffer
  holds at least one sample and still does after resampling to \<open>sr\<close>.
\<close>

definition usable_noise :: "world \<Rightarrow> nat \<Rightarrow> path \<Rightarrow> bool" where
  "usable_noise w sr bg_file =
     (case sf_read w bg_file of
        None \<Rightarrow> True
      | Some (noise, noise_sr) \<Rightarrow>
          noise \<noteq> [] \<and>
          (noise_sr \<noteq> sr \<longrightarrow> noise_sr \<noteq> 0 \<and> 0 < (length noise * sr) div noise_sr))"

text \<open>The exception that ends a call, if any.\<close>

definition raised :: "(py_error + 'a) \<times> state \<Rightarrow> py_error option" where
  "raised r = (case fst r of Inl e \<Rightarrow> Some e | Inr x \<Rightarrow> None)"

text \<open>
  The library of a run is usable when every background file is usable at the rate of
  every positive sample that loads.
\<close>

definition usable_library :: "world \<Rightarrow> bool" where
  "usable_library w =
     (\<forall>p\<in>set (positive_glob w).
        case sf_read w p of
          None \<Rightarrow> True
        | Some (audio, sr) \<Rightarrow> \<forall>q\<in>set (background_rglob w). usable_noise w sr q)"

subsection \<open>Example runs\<close>

text \<open>
  A small world for concrete runs: one positive sample \<open>hey.wav\<close> of two samples at
  16 kHz, three background files that all hold the buffer \<open>noise\<close> at 16 kHz (a file
  listed in \<open>missing\<close> does not load), and writes that succeed where \<open>write_ok\<close> says.
\<close>

definition hey_wav :: path where
  "hey_wav = Path ''data/positive'' ''hey'' ''.wav''"

definition bg_wav :: "string \<Rightarrow> path" where
  "bg_wav name = Path ''data/background'' name ''.wav''"

definition example_world :: "real list \<Rightarrow> path list \<Rightarrow> (path \<Rightarrow> bool) \<Rightarrow> path list \<Rightarrow> world" where
  "example_world noise missing write_ok positives =
     \<lparr>sf_read = (\<lambda>p. if p = hey_wav then Some ([1, - 1], 16000)
                      else if dir p = ''data/background'' \<and> p \<notin> set missing
                      then Some (noise, 16000) else None),
      sf_write = write_ok,
      entropy = (\<lambda>k. 0),
      positive_glob = positives,
      background_rglob = [bg_wav ''rain'', bg_wav ''cafe'', bg_wav ''street''],
      augmented_dir = ''data/augmented''\<rparr>"

definition start_state :: state where
  "start_state = \<lparr>written = [], logged = [], draws = 0\<rparr>"

section \<open>Properties\<close>

subsection \<open>The transform primitives\<close>

text \<open>
  C7: for every signal \<open>s\<close> and factor \<open>f\<close>, the volume transform returns a buffer of
  the same length whose sample at every index \<open>i\<close> is \<open>s[i] * f\<close>; with the factor 1.0
  it returns \<open>s\<close>.
\<close>

theorem change_volume_scales:
  "length (change_volume s f) = length s \<and>
   (\<forall>i<length s. change_volume s f ! i = s ! i * f) \<and>
   change_volume s 1 = s"
  by (simp add: change_volume_def)

theorem change_volume_scales_witness:
  "length (change_volume [1, -2, 4] 3) = 3 \<and> change_volume [1, -2, 4] 3 ! 1 = -6 \<and>
   change_volume [1, -2, 4] 1 = [1, -2, 4]"
  using change_volume_scales [of "[1, -2, 4]" 3] change_volume_scales [of "[1, -2, 4]" 1]
  by (simp add: change_volume_def)

lemma time_stretch_indices_one:
  "map (\<lambda>x. nat \<lfloor>x\<rfloor>)
     (filter (\<lambda>x. x < real n) (map (\<lambda>i. real i * 1) [0..<n])) = [0..<n]"
proof -
  have "filter (\<lambda>x. x < real n) (map (\<lambda>i. real i * 1) [0..<n]) = map real [0..<n]"
    by (simp add: filter_map o_def)
  then show ?thesis
    by (simp add: o_def map_idI)
qed

text \<open>
  C6: for every signal \<open>s\<close>, \<open>time_stretch s 1.0\<close> returns a buffer equal to \<open>s\<close>:
  the index positions \<open>0, 1, 2, ...\<close> select every sample exactly once, in order.
\<close>

theorem time_stretch_rate_one: "time_stretch s 1 = Inr s"
proof -
  have "map (\<lambda>x. s ! nat \<lfloor>x\<rfloor>)
          (filter (\<lambda>x. x < real (length s)) (map (\<lambda>i. real i * 1) [0..<length s]))
        = map (\<lambda>i. s ! i) (map (\<lambda>x. nat \<lfloor>x\<rfloor>)
          (filter (\<lambda>x. x < real (length s)) (map (\<lambda>i. real i * 1) [0..<length s])))"
    by (simp add: o_def)
  also have "\<dots> = map (\<lambda>i. s ! i) [0..<length s]"
    by (simp only: time_stretch_indices_one)
  also have "\<dots> = s"
    by (rule map_nth)
  finally show ?thesis
    by (simp add: time_stretch_def np_arange_def)
qed

theorem time_stretch_rate_one_witness: "time_stretch [5, 7, 11 :: real] 1 = Inr [5, 7, 11]"
  by (rule time_stretch_rate_one)

subsection \<open>Noise alignment\<close>

lemma length_np_tile: "length (np_tile xs r) = r * length xs"
  by (induction r) (simp_all add: np_tile_def)

lemma np_tile_nth: "i < r * length xs \<Longrightarrow> np_tile xs r ! i = xs ! (i mod length xs)"
proof (induction r arbitrary: i)
  case 0
  then show ?case by simp
next
  case (Suc r)
  show ?case
  proof (cases "i < length xs")
    case True
    then show ?thesis by (simp add: np_tile_def nth_append)
  next
    case False
    with Suc.prems have "i - length xs < r * length xs" by simp
    then have "np_tile xs r ! (i - length xs) = xs ! ((i - length xs) mod length xs)"
      by (rule Suc.IH)
    with False show ?thesis
      by (simp add: np_tile_def nth_append le_mod_geq)
  qed
qed

lemma repeats_cover:
  assumes "0 < m"
  shows "L \<le> nat \<lceil>real L / real m\<rceil> * m"
proof -
  define c where "c = nat \<lceil>real L / real m\<rceil>"
  have "real L / real m \<le> real c"
    unfolding c_def by (rule real_nat_ceiling_ge)
  then have "real L \<le> real c * real m"
    using assms by (simp add: pos_divide_le_eq)
  then have "real L \<le> real (c * m)"
    by simp
  then have "L \<le> c * m"
    by (simp only: of_nat_le_iff)
  then show ?thesis
    by (simp only: c_def)
qed

lemma add_noise_align_tile:
  assumes "n \<noteq> []" and "length n < L"
  shows "\<exists>out. add_noise_align u n L = Inr out \<and> length out = L \<and>
           take (length n) out = n \<and> (\<forall>i<L. out ! i = n ! (i mod length n))"
proof -
  let ?r = "nat \<lceil>real L / real (length n)\<rceil>"
  let ?out = "take L (np_tile n ?r)"
  from assms(1) have m: "0 < length n" by simp
  have cover: "L \<le> ?r * length n"
    using m by (rule repeats_cover)
  have eq: "add_noise_align u n L = Inr ?out"
    using assms by (simp add: add_noise_align_def)
  have len: "length ?out = L"
    using cover by (simp add: length_np_tile)
  have nth: "\<forall>i<L. ?out ! i = n ! (i mod length n)"
    using cover by (simp add: np_tile_nth)
  have "take (length n) ?out = n"
  proof (rule nth_equalityI)
    show "length (take (length n) ?out) = length n"
      using len assms(2) by simp
  next
    fix i assume "i < length (take (length n) ?out)"
    then have i: "i < length n" by simp
    with assms(2) have "i < L" by simp
    with nth have "?out ! i = n ! (i mod length n)" by blast
    moreover from i have "take (length n) ?out ! i = ?out ! i" by (rule nth_take)
    ultimately show "take (length n) ?out ! i = n ! i" using i by simp
  qed
  with eq len nth show ?thesis by blast
qed

lemma add_noise_align_crop:
  assumes "L \<le> length n"
  shows "\<exists>start\<le>length n - L. add_noise_align u n L = Inr (take L (drop start n)) \<and>
           length (take L (drop start n)) = L"
proof -
  let ?start = "random_randint u 0 (length n - L)"
  have "?start \<le> length n - L"
    by (simp add: random_randint_def)
  moreover have "add_noise_align u n L = Inr (take L (drop ?start n))"
    using assms by (simp add: add_noise_align_def)
  moreover from calculation(1) assms have "length (take L (drop ?start n)) = L"
    by simp
  ultimately show ?thesis by blast
qed

lemma add_noise_align_every_offset:
  assumes "L \<le> length n" and "start \<le> length n - L"
  shows "add_noise_align start n L = Inr (take L (drop start n))"
  using assms by (simp add: add_noise_align_def random_randint_def)

lemma add_noise_align_same_length:
  "length n = L \<Longrightarrow> add_noise_align u n L = Inr n"
  by (simp add: add_noise_align_def random_randint_def)

text \<open>
  C3, as amended: for every noise buffer \<open>n\<close> and target length \<open>L\<close>: if \<open>n\<close> is not
  empty and shorter than \<open>L\<close>, the aligned noise has length exactly \<open>L\<close>, its first
  \<open>len(n)\<close> samples are \<open>n\<close>, and it is \<open>n\<close> tiled end to end and truncated; if
  \<open>len(n) \<ge> L\<close>, it has length exactly \<open>L\<close> and is the contiguous slice of \<open>n\<close> at an
  offset of \<open>[0, len(n) - L]\<close>, every offset of that range being one that the random
  draw can select; if \<open>len(n) = L\<close> the noise is returned unchanged.
\<close>

theorem add_noise_align_nonempty:
  "(n \<noteq> [] \<and> length n < L \<longrightarrow>
      (\<exists>out. add_noise_align u n L = Inr out \<and> length out = L \<and>
         take (length n) out = n \<and> (\<forall>i<L. out ! i = n ! (i mod length n)))) \<and>
   (L \<le> length n \<longrightarrow>
      (\<exists>start\<le>length n - L. add_noise_align u n L = Inr (take L (drop start n)) \<and>
         length (take L (drop start n)) = L) \<and>
      (\<forall>start\<le>length n - L. \<exists>u'. add_noise_align u' n L = Inr (take L (drop start n)))) \<and>
   (length n = L \<longrightarrow> add_noise_align u n L = Inr n)"
  using add_noise_align_tile [of n L u] add_noise_align_crop [of L n u]
    add_noise_align_every_offset [of L n] add_noise_align_same_length [of n L u]
  by blast

theorem add_noise_align_nonempty_witness:
  "(\<exists>out. add_noise_align 0 [1, 2, 3 :: real] 7 = Inr out \<and> length out = 7 \<and>
      take 3 out = [1, 2, 3] \<and> out ! 6 = 1) \<and>
   (\<exists>start\<le>1. add_noise_align 1 [1, 2, 3 :: real] 2 = Inr (take 2 (drop start [1, 2, 3]))) \<and>
   add_noise_align 1 [1, 2, 3 :: real] 3 = Inr [1, 2, 3]"
proof -
  have h: "[1, 2, 3 :: real] \<noteq> [] \<and> length [1, 2, 3 :: real] < 7"
    by simp
  from add_noise_align_nonempty [of "[1, 2, 3 :: real]" 7 0, THEN conjunct1, rule_format, OF h]
  obtain out where o: "add_noise_align 0 [1, 2, 3 :: real] 7 = Inr out" "length out = 7"
      "take (length [1, 2, 3 :: real]) out = [1, 2, 3]"
      "\<forall>i<7. out ! i = [1, 2, 3 :: real] ! (i mod length [1, 2, 3 :: real])"
    by blast
  from o(4) [rule_format, of 6] have "out ! 6 = 1"
    by simp
  with o(1-3) have a: "\<exists>out. add_noise_align 0 [1, 2, 3 :: real] 7 = Inr out \<and>
      length out = 7 \<and> take 3 out = [1, 2, 3] \<and> out ! 6 = 1"
    by (simp add: numeral_3_eq_3)
  have k: "2 \<le> length [1, 2, 3 :: real]"
    by simp
  from add_noise_align_nonempty [of "[1, 2, 3 :: real]" 2 1, THEN conjunct2, THEN conjunct1,
      rule_format, OF k, THEN conjunct1]
  have b: "\<exists>start\<le>1. add_noise_align 1 [1, 2, 3 :: real] 2 =
      Inr (take 2 (drop start [1, 2, 3]))"
    by auto
  have e: "length [1, 2, 3 :: real] = 3"
    by simp
  note c = add_noise_align_nonempty [of "[1, 2, 3 :: real]" 3 1, THEN conjunct2, THEN conjunct2,
      rule_format, OF e]
  from a b c show ?thesis by blast
qed

text \<open>
  C3 as stated fails on an empty noise buffer with a non-empty signal: the number of
  repeats divides by \<open>len(noise) = 0\<close> and no aligned noise is produced.
\<close>

theorem add_noise_align_empty_noise:
  "add_noise_align 0 ([] :: real list) 1 = Inl ZeroDivisionError"
  by (simp add: add_noise_align_def)

lemma np_len_add_noise_mix:
  "length noise = length audio \<Longrightarrow> np_len (add_noise_mix audio noise snr_db) = length audio"
  by (simp add: add_noise_mix_def Let_def)

lemma add_noise_align_total:
  assumes "noise \<noteq> []"
  shows "\<exists>noise'. add_noise_align u noise L = Inr noise' \<and> length noise' = L"
proof (cases "length noise < L")
  case True
  with assms add_noise_align_tile [of noise L u] show ?thesis by blast
next
  case False
  then have "L \<le> length noise" by simp
  with add_noise_align_crop [of L noise u] show ?thesis by blast
qed

lemma add_noise_total:
  assumes "noise \<noteq> []"
  shows "\<exists>r. add_noise u audio noise snr_db = Inr r \<and> np_len r = length audio"
proof -
  from add_noise_align_total [OF assms] obtain noise' where
    "add_noise_align u noise (length audio) = Inr noise'" "length noise' = length audio"
    by blast
  then show ?thesis
    by (simp add: add_noise_def np_len_add_noise_mix)
qed

lemma add_noise_empty_noise:
  "audio \<noteq> [] \<Longrightarrow> add_noise u audio [] snr_db = Inl ZeroDivisionError"
  by (simp add: add_noise_def add_noise_align_def)

subsection \<open>The mixer\<close>











subsection \<open>Resampling of the noise\<close>

lemma floor_real_div_nat: "nat \<lfloor>real a / real b\<rfloor> = a div b"
  by (simp add: floor_divide_of_nat_eq)

lemma floor_real_mult_div_nat: "nat \<lfloor>real a * real c / real b\<rfloor> = (a * c) div b"
  using floor_real_div_nat [of "a * c" b] by simp

lemma length_np_linspace: "length (np_linspace stop num) = num"
  by (simp add: np_linspace_def)

lemma resample_noise_length:
  assumes "noise \<noteq> []" and "noise_sr \<noteq> 0" and "noise_sr \<noteq> sr"
  shows "resample_noise noise noise_sr sr =
           Inr (map (interp_at noise)
                  (np_linspace (length noise) ((length noise * sr) div noise_sr)))"
  using assms by (simp add: resample_noise_def np_interp_def floor_real_mult_div_nat)

text \<open>
  C10, as amended: when the rate \<open>noise_sr\<close> of a loaded, non-empty noise buffer differs
  from the rate \<open>sr\<close> of the signal (rates are positive), the linearly interpolated
  buffer has length exactly \<open>int(len(noise) * sr / noise_sr)\<close>, which is the integer
  quotient; when the rates are equal the noise buffer goes to the mixer unchanged.
\<close>

theorem resample_noise_nonempty:
  "(noise \<noteq> [] \<and> 0 < noise_sr \<and> noise_sr \<noteq> sr \<longrightarrow>
      (\<exists>out. resample_noise noise noise_sr sr = Inr out \<and>
         out = map (interp_at noise) (np_linspace (length noise) (length out)) \<and>
         length out = nat \<lfloor>real (length noise * sr) / real noise_sr\<rfloor> \<and>
         length out = (length noise * sr) div noise_sr)) \<and>
   resample_noise noise sr sr = Inr noise"
proof -
  have "resample_noise noise sr sr = Inr noise"
    by (simp add: resample_noise_def)
  moreover have "\<exists>out. resample_noise noise noise_sr sr = Inr out \<and>
         out = map (interp_at noise) (np_linspace (length noise) (length out)) \<and>
         length out = nat \<lfloor>real (length noise * sr) / real noise_sr\<rfloor> \<and>
         length out = (length noise * sr) div noise_sr"
    if "noise \<noteq> []" "0 < noise_sr" "noise_sr \<noteq> sr"
    using that resample_noise_length [of noise noise_sr sr]
    by (simp add: length_np_linspace floor_real_mult_div_nat)
  ultimately show ?thesis by blast
qed

theorem resample_noise_nonempty_witness:
  "(\<exists>out. resample_noise [1, 2, 3, 4] 8000 16000 = Inr out \<and> length out = 8) \<and>
   resample_noise [1, 2, 3, 4] 16000 16000 = Inr [1, 2, 3, 4]"
proof -
  have h: "[1, 2, 3, 4 :: real] \<noteq> [] \<and> (0::nat) < 8000 \<and> (8000::nat) \<noteq> 16000"
    by simp
  from resample_noise_nonempty [of "[1, 2, 3, 4]" 8000 16000, THEN conjunct1, rule_format, OF h]
  have "\<exists>out. resample_noise [1, 2, 3, 4] 8000 16000 = Inr out \<and> length out = 8"
    by auto
  moreover note resample_noise_nonempty [of "[1, 2, 3, 4]" 16000 16000, THEN conjunct2]
  ultimately show ?thesis by blast
qed

text \<open>
  C10 as stated fails on a noise file that holds no sample: with different rates
  \<^verbatim>\<open>np.interp\<close> raises a ValueError and no resampled buffer exists.
\<close>

theorem resample_noise_empty: "resample_noise [] 8000 16000 = Inl ValueError"
  by (simp add: resample_noise_def np_interp_def)

subsection \<open>The loops of the policy\<close>

lemma save_audio_cases:
  "\<exists>st'. save_audio w a r p st = (sf_write w p, st') \<and>
         written st' = written st @ kept w [(p, a, r)] \<and> draws st' = draws st"
  by (simp add: save_audio_def kept_def logger_def)

lemma volume_loop_result:
  "\<exists>st'. volume_loop w audio sr pre base fs (c, st) =
           (c + length (kept w (map (\<lambda>(f, txt). (variant_path w pre base (''vol'' @ txt),
                Finite (change_volume audio f), sr)) fs)), st') \<and>
         written st' = written st @ kept w (map (\<lambda>(f, txt).
           (variant_path w pre base (''vol'' @ txt), Finite (change_volume audio f), sr)) fs) \<and>
         draws st' = draws st"
proof (induction fs arbitrary: c st)
  case Nil
  show ?case by (simp add: kept_def)
next
  case (Cons ft fs)
  obtain f tx where ft: "ft = (f, tx)" by (cases ft)
  let ?p = "variant_path w pre base (''vol'' @ tx)"
  let ?a = "Finite (change_volume audio f)"
  from save_audio_cases [of w ?a sr ?p st] obtain st1 where
    s: "save_audio w ?a sr ?p st = (sf_write w ?p, st1)"
    "written st1 = written st @ kept w [(?p, ?a, sr)]" "draws st1 = draws st"
    by blast
  from Cons.IH [of "if sf_write w ?p then c + 1 else c" st1] s(2,3) show ?case
    by (auto simp: ft s(1) [simplified] kept_def)
qed

lemma time_stretch_result:
  "rate \<noteq> 0 \<Longrightarrow> time_stretch audio rate = Inr (the_result (time_stretch audio rate))"
  by (simp add: time_stretch_def np_arange_def the_result_def)

lemma speed_loop_result:
  assumes "\<forall>ft\<in>set fs. fst ft \<noteq> 0"
  shows "\<exists>st'. speed_loop w audio sr pre base fs (c, st) =
           (Inr (c + length (kept w (map (\<lambda>(f, txt). (variant_path w pre base (''speed'' @ txt),
                Finite (the_result (time_stretch audio f)), sr)) fs))), st') \<and>
         written st' = written st @ kept w (map (\<lambda>(f, txt).
           (variant_path w pre base (''speed'' @ txt),
            Finite (the_result (time_stretch audio f)), sr)) fs) \<and>
         draws st' = draws st"
  using assms
proof (induction fs arbitrary: c st)
  case Nil
  show ?case by (simp add: kept_def)
next
  case (Cons ft fs)
  obtain f tx where ft: "ft = (f, tx)" by (cases ft)
  with Cons.prems have f: "f \<noteq> 0" by simp
  then obtain xs where ts: "time_stretch audio f = Inr xs"
    by (auto simp: time_stretch_def np_arange_def)
  let ?p = "variant_path w pre base (''speed'' @ tx)"
  let ?a = "Finite xs"
  from save_audio_cases [of w ?a sr ?p st] obtain st1 where
    s: "save_audio w ?a sr ?p st = (sf_write w ?p, st1)"
    "written st1 = written st @ kept w [(?p, ?a, sr)]" "draws st1 = draws st"
    by blast
  from Cons.prems have "\<forall>ft\<in>set fs. fst ft \<noteq> 0" by simp
  from Cons.IH [OF this, of "if sf_write w ?p then c + 1 else c" st1] s(2,3)
  show ?case
    by (auto simp: ft ts s(1) [simplified] kept_def the_result_def)
qed

lemma augment_sample_not_loaded:
  "sf_read w p = None \<Longrightarrow>
   augment_sample w p bgs pre st = (Inr 0, logger ERROR (FailedToLoad p) st)"
  by (simp add: augment_sample_def load_audio_def)

lemma augment_sample_loaded:
  assumes "sf_read w p = Some (audio, sr)"
  shows "\<exists>st3. written st3 = written st @ kept w (fixed_variants w pre (stem p) audio sr) \<and>
           draws st3 = draws st \<and>
           augment_sample w p bgs pre st =
             (if bgs \<noteq> [] then
                noise_loop w audio sr pre (stem p)
                  (enumerate 0 (random_sample (entropy w (draws st)) bgs (min 3 (length bgs))))
                  (length (kept w (fixed_variants w pre (stem p) audio sr)),
                   st3\<lparr>draws := Suc (draws st)\<rparr>)
              else (Inr (length (kept w (fixed_variants w pre (stem p) audio sr))), st3))"
proof -
  let ?base = "stem p"
  let ?po = "variant_path w pre ?base ''original''"
  from save_audio_cases [of w "Finite audio" sr ?po st] obtain st1 where
    s1: "save_audio w (Finite audio) sr ?po st = (sf_write w ?po, st1)"
    "written st1 = written st @ kept w [(?po, Finite audio, sr)]" "draws st1 = draws st"
    by blast
  let ?c1 = "if sf_write w ?po then 1 else (0::nat)"
  from volume_loop_result [of w audio sr pre ?base vol_factors ?c1 st1] obtain st2 c2 where
    s2: "volume_loop w audio sr pre ?base vol_factors (?c1, st1) = (c2, st2)"
    "c2 = ?c1 + length (kept w (map (\<lambda>(f, txt). (variant_path w pre ?base (''vol'' @ txt),
                Finite (change_volume audio f), sr)) vol_factors))"
    "written st2 = written st1 @ kept w (map (\<lambda>(f, txt).
           (variant_path w pre ?base (''vol'' @ txt), Finite (change_volume audio f), sr)) vol_factors)"
    "draws st2 = draws st1"
    by blast
  have nz: "\<forall>ft\<in>set speed_factors. fst ft \<noteq> 0"
    by (simp add: speed_factors_def)
  from speed_loop_result [OF nz, of w audio sr pre ?base c2 st2] obtain st3 c3 where
    s3: "speed_loop w audio sr pre ?base speed_factors (c2, st2) = (Inr c3, st3)"
    "c3 = c2 + length (kept w (map (\<lambda>(f, txt). (variant_path w pre ?base (''speed'' @ txt),
                Finite (the_result (time_stretch audio f)), sr)) speed_factors))"
    "written st3 = written st2 @ kept w (map (\<lambda>(f, txt).
           (variant_path w pre ?base (''speed'' @ txt),
            Finite (the_result (time_stretch audio f)), sr)) speed_factors)"
    "draws st3 = draws st2"
    by blast
  have w3: "written st3 = written st @ kept w (fixed_variants w pre ?base audio sr)"
    by (simp add: s3(3) s2(3) s1(2) kept_def fixed_variants_def vol_factors_def speed_factors_def)
  have c3: "c3 = length (kept w (fixed_variants w pre ?base audio sr))"
    by (simp add: s3(2) s2(2) kept_def fixed_variants_def vol_factors_def speed_factors_def)
  have d3: "draws st3 = draws st"
    by (simp add: s3(4) s2(4) s1(3))
  have "augment_sample w p bgs pre st =
             (if bgs \<noteq> [] then
                noise_loop w audio sr pre (stem p)
                  (enumerate 0 (random_sample (entropy w (draws st)) bgs (min 3 (length bgs))))
                  (length (kept w (fixed_variants w pre (stem p) audio sr)),
                   st3\<lparr>draws := Suc (draws st)\<rparr>)
              else (Inr (length (kept w (fixed_variants w pre (stem p) audio sr))), st3))"
    using assms
    by (simp add: augment_sample_def load_audio_def s1(1) s2(1) s3(1) c3 d3 Let_def)
  with w3 d3 show ?thesis by blast
qed



lemma resample_noise_usable:
  assumes "noise \<noteq> []"
    and "noise_sr \<noteq> sr \<longrightarrow> noise_sr \<noteq> 0 \<and> 0 < (length noise * sr) div noise_sr"
  shows "\<exists>noise'. resample_noise noise noise_sr sr = Inr noise' \<and> noise' \<noteq> []"
proof (cases "noise_sr = sr")
  case True
  with assms(1) show ?thesis by (simp add: resample_noise_def)
next
  case False
  with assms have "noise_sr \<noteq> 0" and pos: "0 < (length noise * sr) div noise_sr"
    by simp_all
  from resample_noise_length [OF assms(1) this(1) False]
  have "resample_noise noise noise_sr sr =
      Inr (map (interp_at noise) (np_linspace (length noise) ((length noise * sr) div noise_sr)))" .
  moreover from pos have
    "map (interp_at noise) (np_linspace (length noise) ((length noise * sr) div noise_sr)) \<noteq> []"
    using length_np_linspace [of "length noise" "(length noise * sr) div noise_sr"] by auto
  ultimately show ?thesis by blast
qed

lemma noise_paths_Cons:
  "noise_paths w pre base ((i, q) # rest) =
     (if sf_read w q \<noteq> None then [variant_path w pre base (''noise'' @ str_nat i)] else [])
     @ noise_paths w pre base rest"
  by (simp add: noise_paths_def)

lemma noise_loop_not_loaded:
  "sf_read w q = None \<Longrightarrow>
   noise_loop w audio sr pre base ((i, q) # rest) (c, st) =
     noise_loop w audio sr pre base rest (c, logger ERROR (FailedToLoad q) st)"
  by (simp add: load_audio_def)

lemma noise_loop_mixed:
  assumes "sf_read w q = Some (noise, noise_sr)"
    and "resample_noise noise noise_sr sr = Inr noise'"
    and "add_noise (entropy w (draws st)) audio noise' 15 = Inr augmented"
    and "save_audio w augmented sr (variant_path w pre base (''noise'' @ str_nat i))
           (st\<lparr>draws := Suc (draws st)\<rparr>) = (ok, st3)"
  shows "noise_loop w audio sr pre base ((i, q) # rest) (c, st) =
           noise_loop w audio sr pre base rest (if ok then c + 1 else c, st3)"
  using assms by (simp add: load_audio_def)

lemma noise_loop_usable:
  assumes "\<forall>ip\<in>set ips. usable_noise w sr (snd ip)"
  shows "\<exists>N st'. noise_loop w audio sr pre base ips (c, st) = (Inr (c + length N), st') \<and>
           written st' = written st @ N \<and>
           map fst N = filter (sf_write w) (noise_paths w pre base ips) \<and>
           (\<forall>v\<in>set N. snd (snd v) = sr \<and>
              (\<exists>u noise'. add_noise u audio noise' 15 = Inr (fst (snd v))))"
  using assms
proof (induction ips arbitrary: c st)
  case Nil
  show ?case by (simp add: noise_paths_def)
next
  case (Cons ip rest)
  obtain i q where ip: "ip = (i, q)" by (cases ip)
  from Cons.prems have rest: "\<forall>ip\<in>set rest. usable_noise w sr (snd ip)"
    by simp
  show ?case
  proof (cases "sf_read w q")
    case None
    from Cons.IH [OF rest, of c "logger ERROR (FailedToLoad q) st"]
    show ?thesis
      unfolding ip noise_loop_not_loaded [OF None] noise_paths_Cons
      by (simp add: None logger_def)
  next
    case (Some a)
    obtain noise noise_sr where a: "a = (noise, noise_sr)" by (cases a)
    with Some have rd: "sf_read w q = Some (noise, noise_sr)" by simp
    from Cons.prems ip rd have "noise \<noteq> []"
      and "noise_sr \<noteq> sr \<longrightarrow> noise_sr \<noteq> 0 \<and> 0 < (length noise * sr) div noise_sr"
      by (simp_all add: usable_noise_def)
    from resample_noise_usable [OF this] obtain noise' where
      rs: "resample_noise noise noise_sr sr = Inr noise'" and ne: "noise' \<noteq> []"
      by blast
    from add_noise_total [OF ne, of "entropy w (draws st)" audio 15] obtain augmented where
      an: "add_noise (entropy w (draws st)) audio noise' 15 = Inr augmented"
      by blast
    let ?p = "variant_path w pre base (''noise'' @ str_nat i)"
    from save_audio_cases [of w augmented sr ?p "st\<lparr>draws := Suc (draws st)\<rparr>"] obtain st3 where
      sv: "save_audio w augmented sr ?p (st\<lparr>draws := Suc (draws st)\<rparr>) = (sf_write w ?p, st3)"
      and w3: "written st3 = written st @ kept w [(?p, augmented, sr)]"
      by (auto simp del: kept_def)
    from Cons.IH [OF rest, of "if sf_write w ?p then c + 1 else c" st3] obtain N st' where
      ih: "noise_loop w audio sr pre base rest (if sf_write w ?p then c + 1 else c, st3) =
             (Inr ((if sf_write w ?p then c + 1 else c) + length N), st')"
        "written st' = written st3 @ N"
        "map fst N = filter (sf_write w) (noise_paths w pre base rest)"
        "\<forall>v\<in>set N. snd (snd v) = sr \<and>
              (\<exists>u noise'. add_noise u audio noise' 15 = Inr (fst (snd v)))"
      by blast
    let ?N = "kept w [(?p, augmented, sr)] @ N"
    have "noise_loop w audio sr pre base (ip # rest) (c, st) = (Inr (c + length ?N), st')"
      unfolding ip noise_loop_mixed [OF rd rs an sv] ih(1)
      by (simp add: kept_def)
    moreover have "written st' = written st @ ?N"
      by (simp add: ih(2) w3)
    moreover have "map fst ?N = filter (sf_write w) (noise_paths w pre base (ip # rest))"
      unfolding ip noise_paths_Cons
      by (simp add: rd ih(3) kept_def)
    moreover have "\<forall>v\<in>set ?N. snd (snd v) = sr \<and>
              (\<exists>u noise'. add_noise u audio noise' 15 = Inr (fst (snd v)))"
      using ih(4) an by (auto simp: kept_def)
    ultimately show ?thesis by blast
  qed
qed

lemma noise_loop_count:
  "fst (noise_loop w audio sr pre base ips (c, st)) = Inr c' \<Longrightarrow>
   length (written (snd (noise_loop w audio sr pre base ips (c, st)))) + c
     = length (written st) + c'"
proof (induction ips arbitrary: c st)
  case Nil
  then show ?case by simp
next
  case (Cons ip rest)
  obtain i q where ip: "ip = (i, q)" by (cases ip)
  show ?case
  proof (cases "sf_read w q")
    case None
    from Cons.prems Cons.IH [of c "logger ERROR (FailedToLoad q) st"]
    show ?thesis
      unfolding ip noise_loop_not_loaded [OF None]
      by (simp add: logger_def)
  next
    case (Some a)
    obtain noise noise_sr where a: "a = (noise, noise_sr)" by (cases a)
    with Some have rd: "sf_read w q = Some (noise, noise_sr)" by simp
    show ?thesis
    proof (cases "resample_noise noise noise_sr sr")
      case (Inl e)
      with Cons.prems rd show ?thesis
        by (simp add: ip load_audio_def)
    next
      case (Inr noise')
      show ?thesis
      proof (cases "add_noise (entropy w (draws st)) audio noise' 15")
        case (Inl e)
        with Cons.prems rd \<open>resample_noise noise noise_sr sr = Inr noise'\<close> show ?thesis
          by (simp add: ip load_audio_def)
      next
        case an: (Inr augmented)
        let ?p = "variant_path w pre base (''noise'' @ str_nat i)"
        from save_audio_cases [of w augmented sr ?p "st\<lparr>draws := Suc (draws st)\<rparr>"]
        obtain st3 where
          sv: "save_audio w augmented sr ?p (st\<lparr>draws := Suc (draws st)\<rparr>) = (sf_write w ?p, st3)"
          and w3: "written st3 = written st @ kept w [(?p, augmented, sr)]"
          by auto
        from Cons.prems Cons.IH [of "if sf_write w ?p then c + 1 else c" st3]
        show ?thesis
          unfolding ip noise_loop_mixed [OF rd Inr an sv]
          by (simp add: w3 kept_def split: if_splits)
      qed
    qed
  qed
qed

lemma noise_loop_empty_noise:
  assumes "sf_read w q = Some ([], noise_sr)" and "audio \<noteq> []"
  shows "\<exists>e. noise_loop w audio sr pre base ((i, q) # rest) (c, st) = (Inl e, st) \<and>
           (noise_sr = sr \<longrightarrow> e = ZeroDivisionError)"
proof (cases "noise_sr = sr")
  case True
  with assms show ?thesis
    by (simp add: load_audio_def resample_noise_def add_noise_empty_noise)
next
  case False
  with assms show ?thesis
    by (simp add: load_audio_def resample_noise_def np_interp_def)
qed

lemma set_random_sample: "set (random_sample u xs k) \<subseteq> set xs"
proof (induction k arbitrary: u xs)
  case 0
  show ?case by simp
next
  case (Suc k)
  show ?case
  proof (cases "xs = []")
    case True
    then show ?thesis by simp
  next
    case False
    let ?j = "u mod length xs"
    from False have j: "?j < length xs" by simp
    have "set (take ?j xs @ drop (Suc ?j) xs) \<subseteq> set xs"
      by (auto dest: in_set_takeD in_set_dropD)
    with Suc.IH [of "u div length xs" "take ?j xs @ drop (Suc ?j) xs"] j False
    show ?thesis
      by (auto simp: Let_def)
  qed
qed

lemma length_random_sample: "k \<le> length xs \<Longrightarrow> length (random_sample u xs k) = k"
proof (induction k arbitrary: u xs)
  case 0
  show ?case by simp
next
  case (Suc k)
  then have ne: "xs \<noteq> []" by auto
  let ?j = "u mod length xs"
  from ne have j: "?j < length xs" by simp
  with Suc.prems have "k \<le> length (take ?j xs @ drop (Suc ?j) xs)"
    by simp
  from Suc.IH [OF this] ne show ?case
    by (simp add: Let_def)
qed

lemma snd_set_enumerate: "snd ` set (enumerate n xs) = set xs"
  by (metis map_snd_enumerate set_map)

lemma augment_sample_usable:
  assumes rd: "sf_read w p = Some (audio, sr)"
    and us: "\<forall>q\<in>set bgs. usable_noise w sr q"
  shows "\<exists>N st'. augment_sample w p bgs pre st =
             (Inr (length (kept w (fixed_variants w pre (stem p) audio sr)) + length N), st') \<and>
           written st' = written st @ kept w (fixed_variants w pre (stem p) audio sr) @ N \<and>
           map fst N = filter (sf_write w) (noise_paths w pre (stem p)
             (enumerate 0 (random_sample (entropy w (draws st)) bgs (min 3 (length bgs))))) \<and>
           (\<forall>v\<in>set N. snd (snd v) = sr \<and>
              (\<exists>u noise'. add_noise u audio noise' 15 = Inr (fst (snd v))))"
proof -
  let ?K = "kept w (fixed_variants w pre (stem p) audio sr)"
  let ?picks = "random_sample (entropy w (draws st)) bgs (min 3 (length bgs))"
  from augment_sample_loaded [OF rd, of st pre bgs] obtain st3 where
    w3: "written st3 = written st @ ?K" and
    eq: "augment_sample w p bgs pre st =
           (if bgs \<noteq> [] then
              noise_loop w audio sr pre (stem p) (enumerate 0 ?picks)
                (length ?K, st3\<lparr>draws := Suc (draws st)\<rparr>)
            else (Inr (length ?K), st3))"
    by blast
  show ?thesis
  proof (cases "bgs = []")
    case True
    with eq w3 have "augment_sample w p bgs pre st = (Inr (length ?K + length ([] :: (path \<times> np_array \<times> nat) list)), st3)"
      and "written st3 = written st @ ?K @ []"
      by simp_all
    moreover from True have "map fst ([] :: (path \<times> np_array \<times> nat) list) =
        filter (sf_write w) (noise_paths w pre (stem p) (enumerate 0 ?picks))"
      by (simp add: noise_paths_def)
    ultimately show ?thesis
      by (intro exI [of _ "[]"] exI [of _ st3]) simp
  next
    case False
    have "set ?picks \<subseteq> set bgs"
      by (rule set_random_sample)
    with us have "\<forall>ip\<in>set (enumerate 0 ?picks). usable_noise w sr (snd ip)"
      using snd_set_enumerate [of 0 ?picks] by auto
    from noise_loop_usable [OF this, of audio pre "stem p" "length ?K" "st3\<lparr>draws := Suc (draws st)\<rparr>"]
    obtain N st' where
      n: "noise_loop w audio sr pre (stem p) (enumerate 0 ?picks)
            (length ?K, st3\<lparr>draws := Suc (draws st)\<rparr>) = (Inr (length ?K + length N), st')"
      "written st' = written (st3\<lparr>draws := Suc (draws st)\<rparr>) @ N"
      "map fst N = filter (sf_write w) (noise_paths w pre (stem p) (enumerate 0 ?picks))"
      "\<forall>v\<in>set N. snd (snd v) = sr \<and>
              (\<exists>u noise'. add_noise u audio noise' 15 = Inr (fst (snd v)))"
      by blast
    from False eq n(1) have "augment_sample w p bgs pre st = (Inr (length ?K + length N), st')"
      by simp
    moreover from n(2) w3 have "written st' = written st @ ?K @ N"
      by simp
    ultimately show ?thesis
      using n(3,4) by blast
  qed
qed

lemma noise_paths_all_loaded:
  "\<forall>q\<in>set xs. sf_read w q \<noteq> None \<Longrightarrow>
   noise_paths w pre base (enumerate n xs) =
     map (\<lambda>i. variant_path w pre base (''noise'' @ str_nat i)) [n..<n + length xs]"
proof (induction xs arbitrary: n)
  case Nil
  show ?case by (simp add: noise_paths_def)
next
  case (Cons q xs)
  from Cons.prems have "\<forall>q\<in>set xs. sf_read w q \<noteq> None" by simp
  from Cons.IH [OF this, of "Suc n"]
  have ih: "noise_paths w pre base (enumerate (Suc n) xs) =
      map (\<lambda>i. variant_path w pre base (''noise'' @ str_nat i)) [Suc n..<Suc n + length xs]" .
  have "[n..<Suc n + length xs] = n # [Suc n..<Suc n + length xs]"
    by (rule upt_conv_Cons) simp
  moreover have "n + length (q # xs) = Suc n + length xs"
    by simp
  ultimately have up: "[n..<n + length (q # xs)] = n # [Suc n..<Suc n + length xs]"
    by (simp only:)
  from Cons.prems have "sf_read w q \<noteq> None" by simp
  then show ?case
    unfolding up by (simp add: noise_paths_Cons ih)
qed

lemma kept_all: "\<forall>q. sf_write w q \<Longrightarrow> kept w vs = vs"
  by (simp add: kept_def)

lemma length_fixed_variants: "length (fixed_variants w pre base audio sr) = 5"
  by (simp add: fixed_variants_def)

lemma augment_sample_all_succeed:
  assumes rd: "sf_read w p = Some (audio, sr)"
    and us: "\<forall>q\<in>set bgs. usable_noise w sr q \<and> sf_read w q \<noteq> None"
    and wr: "\<forall>q. sf_write w q"
  shows "\<exists>N st'. augment_sample w p bgs pre st = (Inr (5 + min 3 (length bgs)), st') \<and>
           written st' = written st @ fixed_variants w pre (stem p) audio sr @ N \<and>
           map fst N = map (\<lambda>i. variant_path w pre (stem p) (''noise'' @ str_nat i))
                         [0..<min 3 (length bgs)] \<and>
           (\<forall>v\<in>set N. snd (snd v) = sr \<and>
              (\<exists>u noise'. add_noise u audio noise' 15 = Inr (fst (snd v))))"
proof -
  let ?picks = "random_sample (entropy w (draws st)) bgs (min 3 (length bgs))"
  from us have us': "\<forall>q\<in>set bgs. usable_noise w sr q" by blast
  from augment_sample_usable [OF rd us', of pre st] obtain N st' where
    n: "augment_sample w p bgs pre st =
             (Inr (length (kept w (fixed_variants w pre (stem p) audio sr)) + length N), st')"
       "written st' = written st @ kept w (fixed_variants w pre (stem p) audio sr) @ N"
       "map fst N = filter (sf_write w) (noise_paths w pre (stem p) (enumerate 0 ?picks))"
       "\<forall>v\<in>set N. snd (snd v) = sr \<and>
              (\<exists>u noise'. add_noise u audio noise' 15 = Inr (fst (snd v)))"
    by blast
  have len: "length ?picks = min 3 (length bgs)"
    by (rule length_random_sample) simp
  have "set ?picks \<subseteq> set bgs"
    by (rule set_random_sample)
  with us have "\<forall>q\<in>set ?picks. sf_read w q \<noteq> None" by blast
  from noise_paths_all_loaded [OF this, of pre "stem p" 0] len
  have np: "noise_paths w pre (stem p) (enumerate 0 ?picks) =
      map (\<lambda>i. variant_path w pre (stem p) (''noise'' @ str_nat i)) [0..<min 3 (length bgs)]"
    by simp
  from wr have ft: "filter (sf_write w) (noise_paths w pre (stem p) (enumerate 0 ?picks))
      = noise_paths w pre (stem p) (enumerate 0 ?picks)"
    by simp
  from n(3) have "map fst N = noise_paths w pre (stem p) (enumerate 0 ?picks)"
    by (simp only: ft)
  with np have mN: "map fst N = map (\<lambda>i. variant_path w pre (stem p) (''noise'' @ str_nat i))
      [0..<min 3 (length bgs)]"
    by simp
  then have "length (map fst N) = min 3 (length bgs)"
    by simp
  then have lN: "length N = min 3 (length bgs)"
    by simp
  from n(1) have "augment_sample w p bgs pre st = (Inr (5 + min 3 (length bgs)), st')"
    by (simp add: kept_all [OF wr] length_fixed_variants lN)
  moreover from n(2) have "written st' = written st @ fixed_variants w pre (stem p) audio sr @ N"
    by (simp add: kept_all [OF wr])
  ultimately show ?thesis
    using mN n(4) by blast
qed

lemma augment_sample_count:
  assumes "augment_sample w p bgs pre st = (Inr c, st')"
  shows "length (written st') = length (written st) + c"
proof (cases "sf_read w p")
  case None
  from assms show ?thesis
    unfolding augment_sample_not_loaded [OF None]
    by (auto simp: logger_def)
next
  case (Some a)
  obtain audio sr where "a = (audio, sr)" by (cases a)
  with Some have rd: "sf_read w p = Some (audio, sr)" by simp
  let ?K = "kept w (fixed_variants w pre (stem p) audio sr)"
  let ?picks = "random_sample (entropy w (draws st)) bgs (min 3 (length bgs))"
  from augment_sample_loaded [OF rd, of st pre bgs] obtain st3 where
    w3: "written st3 = written st @ ?K" and
    eq: "augment_sample w p bgs pre st =
           (if bgs \<noteq> [] then
              noise_loop w audio sr pre (stem p) (enumerate 0 ?picks)
                (length ?K, st3\<lparr>draws := Suc (draws st)\<rparr>)
            else (Inr (length ?K), st3))"
    by blast
  show ?thesis
  proof (cases "bgs = []")
    case True
    with eq assms w3 show ?thesis by simp
  next
    case False
    with eq assms have nl: "noise_loop w audio sr pre (stem p) (enumerate 0 ?picks)
                (length ?K, st3\<lparr>draws := Suc (draws st)\<rparr>) = (Inr c, st')"
      by simp
    then have "fst (noise_loop w audio sr pre (stem p) (enumerate 0 ?picks)
                (length ?K, st3\<lparr>draws := Suc (draws st)\<rparr>)) = Inr c"
      by simp
    from noise_loop_count [OF this] nl w3 show ?thesis
      by simp
  qed
qed

lemma str_nat_digits:
  "str_nat 0 = ''0''" "str_nat 1 = ''1''" "str_nat (Suc 0) = ''1''" "str_nat 2 = ''2''"
  by (simp_all add: str_nat.simps)

lemma upt_3: "[0..<3] = [0, 1, 2]" "[0..<2] = [0, 1]" "[0..<1] = [0]"
  by (simp_all add: upt_rec)

lemma distinct_variant_paths:
  assumes "k \<le> 3"
  shows "distinct (map fst (fixed_variants w pre base audio sr) @
           map (\<lambda>i. variant_path w pre base (''noise'' @ str_nat i)) [0..<k])"
proof -
  from assms have "k = 0 \<or> k = 1 \<or> k = 2 \<or> k = 3" by auto
  then show ?thesis
    by (elim disjE) (simp_all add: fixed_variants_def variant_path_def str_nat_digits upt_3)
qed

lemma augment_sample_empty_first_pick:
  assumes rd: "sf_read w p = Some (audio, sr)" and ne: "audio \<noteq> []"
    and pk: "random_sample (entropy w (draws st)) bgs (min 3 (length bgs)) = q # qs"
    and em: "sf_read w q = Some ([], sr)"
  shows "\<exists>st'. augment_sample w p bgs pre st = (Inl ZeroDivisionError, st') \<and>
           written st' = written st @ kept w (fixed_variants w pre (stem p) audio sr)"
proof -
  let ?K = "kept w (fixed_variants w pre (stem p) audio sr)"
  from pk have bg: "bgs \<noteq> []"
    by (cases bgs) auto
  from augment_sample_loaded [OF rd, of st pre bgs] obtain st3 where
    w3: "written st3 = written st @ ?K" and
    eq: "augment_sample w p bgs pre st =
           (if bgs \<noteq> [] then
              noise_loop w audio sr pre (stem p)
                (enumerate 0 (random_sample (entropy w (draws st)) bgs (min 3 (length bgs))))
                (length ?K, st3\<lparr>draws := Suc (draws st)\<rparr>)
            else (Inr (length ?K), st3))"
    by blast
  from noise_loop_empty_noise [OF em ne, where pre = pre and base = "stem p" and i = 0
      and rest = "enumerate 1 qs" and c = "length ?K"
      and st = "st3\<lparr>draws := Suc (draws st)\<rparr>"]
  have "noise_loop w audio sr pre (stem p) ((0, q) # enumerate 1 qs)
          (length ?K, st3\<lparr>draws := Suc (draws st)\<rparr>)
        = (Inl ZeroDivisionError, st3\<lparr>draws := Suc (draws st)\<rparr>)"
    by auto
  with eq bg pk have "augment_sample w p bgs pre st =
      (Inl ZeroDivisionError, st3\<lparr>draws := Suc (draws st)\<rparr>)"
    by simp
  with w3 show ?thesis by simp
qed

lemma example_reads:
  "sf_read (example_world noise missing write_ok positives) hey_wav = Some ([1, - 1], 16000)"
  "bg_wav name \<notin> set missing \<Longrightarrow>
   sf_read (example_world noise missing write_ok positives) (bg_wav name) = Some (noise, 16000)"
  "bg_wav name \<in> set missing \<Longrightarrow>
   sf_read (example_world noise missing write_ok positives) (bg_wav name) = None"
  by (simp_all add: example_world_def hey_wav_def bg_wav_def)

lemma example_fields:
  "sf_write (example_world noise missing write_ok positives) = write_ok"
  "entropy (example_world noise missing write_ok positives) k = 0"
  "positive_glob (example_world noise missing write_ok positives) = positives"
  "background_rglob (example_world noise missing write_ok positives) =
     [bg_wav ''rain'', bg_wav ''cafe'', bg_wav ''street'']"
  "augmented_dir (example_world noise missing write_ok positives) = ''data/augmented''"
  by (simp_all add: example_world_def)

lemma random_sample_zero: "random_sample 0 xs k = take k xs"
proof (induction k arbitrary: xs)
  case 0
  show ?case by simp
next
  case (Suc k)
  show ?case
  proof (cases xs)
    case Nil
    then show ?thesis by simp
  next
    case (Cons x ys)
    with Suc.IH [of ys] show ?thesis by simp
  qed
qed

lemma random_sample_zero_three:
  "random_sample 0 [a, b, c] (min 3 (length [a, b, c])) = [a, b, c]"
  by (simp add: random_sample_zero)

lemma augment_loop_usable:
  assumes "\<forall>ip\<in>set ips. case sf_read w (snd ip) of None \<Rightarrow> True
             | Some (audio, sr) \<Rightarrow> \<forall>q\<in>set bgs. usable_noise w sr q"
  shows "\<exists>M st'. augment_loop w bgs n ips (t, st) = (Inr (t + length M), st') \<and>
           written st' = written st @ M \<and>
           (\<forall>ip\<in>set ips. \<forall>audio sr. sf_read w (snd ip) = Some (audio, sr) \<longrightarrow>
              set (kept w (fixed_variants w ''aug'' (stem (snd ip)) audio sr)) \<subseteq> set M)"
  using assms
proof (induction ips arbitrary: t st)
  case Nil
  show ?case by simp
next
  case (Cons ip rest)
  obtain i p where ip: "ip = (i, p)" by (cases ip)
  let ?st0 = "logger INFO (Augmenting i n p) st"
  have w0: "written ?st0 = written st"
    by (simp add: logger_def)
  from Cons.prems have rest: "\<forall>ip\<in>set rest. case sf_read w (snd ip) of None \<Rightarrow> True
             | Some (audio, sr) \<Rightarrow> \<forall>q\<in>set bgs. usable_noise w sr q"
    by simp
  show ?case
  proof (cases "sf_read w p")
    case None
    let ?st1 = "logger INFO (Created 0) (logger ERROR (FailedToLoad p) ?st0)"
    have w1: "written ?st1 = written st"
      by (simp add: logger_def)
    have step: "augment_loop w bgs n (ip # rest) (t, st) = augment_loop w bgs n rest (t, ?st1)"
      by (simp add: ip augment_sample_not_loaded [OF None])
    from Cons.IH [OF rest, of t ?st1] obtain M st' where
      ih: "augment_loop w bgs n rest (t, ?st1) = (Inr (t + length M), st')"
        "written st' = written ?st1 @ M"
        "\<forall>ip\<in>set rest. \<forall>audio sr. sf_read w (snd ip) = Some (audio, sr) \<longrightarrow>
              set (kept w (fixed_variants w ''aug'' (stem (snd ip)) audio sr)) \<subseteq> set M"
      by blast
    from ih(3) None have "\<forall>ip\<in>set (ip # rest). \<forall>audio sr.
        sf_read w (snd ip) = Some (audio, sr) \<longrightarrow>
          set (kept w (fixed_variants w ''aug'' (stem (snd ip)) audio sr)) \<subseteq> set M"
      by (simp add: ip)
    with step ih(1,2) w1 show ?thesis
      by (intro exI [of _ M] exI [of _ st']) simp
  next
    case (Some a)
    obtain audio sr where "a = (audio, sr)" by (cases a)
    with Some have rd: "sf_read w p = Some (audio, sr)" by simp
    with Cons.prems ip have us: "\<forall>q\<in>set bgs. usable_noise w sr q"
      by simp
    let ?K = "kept w (fixed_variants w ''aug'' (stem p) audio sr)"
    from augment_sample_usable [OF rd us, of "''aug''" ?st0] obtain N st1 where
      s: "augment_sample w p bgs ''aug'' ?st0 = (Inr (length ?K + length N), st1)"
        "written st1 = written ?st0 @ ?K @ N"
      by blast
    let ?c = "length ?K + length N"
    let ?st2 = "logger INFO (Created ?c) st1"
    have w2: "written ?st2 = written st @ ?K @ N"
      by (simp add: logger_def s(2) w0)
    have step: "augment_loop w bgs n (ip # rest) (t, st) =
        augment_loop w bgs n rest (t + ?c, ?st2)"
      by (simp add: ip s(1))
    from Cons.IH [OF rest, of "t + ?c" ?st2] obtain M st' where
      ih: "augment_loop w bgs n rest (t + ?c, ?st2) = (Inr (t + ?c + length M), st')"
        "written st' = written ?st2 @ M"
        "\<forall>ip\<in>set rest. \<forall>audio sr. sf_read w (snd ip) = Some (audio, sr) \<longrightarrow>
              set (kept w (fixed_variants w ''aug'' (stem (snd ip)) audio sr)) \<subseteq> set M"
      by blast
    let ?M = "?K @ N @ M"
    have "augment_loop w bgs n (ip # rest) (t, st) = (Inr (t + length ?M), st')"
      by (simp add: step ih(1))
    moreover have "written st' = written st @ ?M"
      by (simp add: ih(2) w2)
    moreover from ih(3) rd have "\<forall>ip\<in>set (ip # rest). \<forall>audio sr.
        sf_read w (snd ip) = Some (audio, sr) \<longrightarrow>
          set (kept w (fixed_variants w ''aug'' (stem (snd ip)) audio sr)) \<subseteq> set ?M"
      by (auto simp: ip)
    ultimately show ?thesis by blast
  qed
qed

lemma augment_all_usable:
  assumes "usable_library w"
  shows "\<exists>M st'. augment_all w st = (Inr (), st') \<and> written st' = written st @ M \<and>
           (positive_glob w \<noteq> [] \<longrightarrow> (INFO, AugmentedSamples (length M)) \<in> set (logged st')) \<and>
           (\<forall>p\<in>set (positive_glob w). \<forall>audio sr. sf_read w p = Some (audio, sr) \<longrightarrow>
              set (kept w (fixed_variants w ''aug'' (stem p) audio sr)) \<subseteq> set M)"
proof (cases "positive_glob w = []")
  case True
  then have "augment_all w st = (Inr (), logger ERROR NoPositiveSamples
      (logger INFO (FoundBackground (length (background_rglob w)))
        (logger INFO (FoundPositive 0)
          (logger INFO Banner (logger INFO Title (logger INFO Banner st))))))"
    by (simp add: augment_all_def)
  with True show ?thesis
    by (intro exI [of _ "[]"]) (simp add: logger_def)
next
  case False
  let ?st3 = "logger INFO (FoundBackground (length (background_rglob w)))
      (logger INFO (FoundPositive (length (positive_glob w)))
        (logger INFO Banner (logger INFO Title (logger INFO Banner st))))"
  have w3: "written ?st3 = written st"
    by (simp add: logger_def)
  from assms have "\<forall>ip\<in>set (enumerate 1 (positive_glob w)).
      case sf_read w (snd ip) of None \<Rightarrow> True
      | Some (audio, sr) \<Rightarrow> \<forall>q\<in>set (background_rglob w). usable_noise w sr q"
    using snd_set_enumerate [of 1 "positive_glob w"] by (auto simp: usable_library_def)
  from augment_loop_usable [OF this, of "length (positive_glob w)" 0 ?st3] obtain M st4 where
    l: "augment_loop w (background_rglob w) (length (positive_glob w))
          (enumerate 1 (positive_glob w)) (0, ?st3) = (Inr (0 + length M), st4)"
      "written st4 = written ?st3 @ M"
      "\<forall>ip\<in>set (enumerate 1 (positive_glob w)). \<forall>audio sr.
         sf_read w (snd ip) = Some (audio, sr) \<longrightarrow>
           set (kept w (fixed_variants w ''aug'' (stem (snd ip)) audio sr)) \<subseteq> set M"
    by blast
  let ?st5 = "logger INFO Banner
     (logger INFO (TotalSize (length (positive_glob w) + length M))
        (logger INFO (AugmentedSamples (length M))
           (logger INFO (OriginalSamples (length (positive_glob w)))
              (logger INFO Complete (logger INFO Banner st4)))))"
  from False l(1) have "augment_all w st = (Inr (), ?st5)"
    by (simp add: augment_all_def Let_def)
  moreover have "written ?st5 = written st @ M"
    by (simp add: logger_def l(2) w3)
  moreover have "(INFO, AugmentedSamples (length M)) \<in> set (logged ?st5)"
    by (simp add: logger_def)
  moreover from l(3) have "\<forall>p\<in>set (positive_glob w). \<forall>audio sr.
      sf_read w p = Some (audio, sr) \<longrightarrow>
        set (kept w (fixed_variants w ''aug'' (stem p) audio sr)) \<subseteq> set M"
    using snd_set_enumerate [of 1 "positive_glob w"] by force
  ultimately show ?thesis by blast
qed

subsection \<open>The augmentation policy\<close>

text \<open>
  C2, as amended: for one positive sample that loads, \<open>augment_sample\<close> attempts in order
  the unmodified copy, the volume variants at 0.7 and 1.3, the speed variants at 0.9 and
  1.1, and \<open>min(3, number of background files)\<close> noise variants mixed at 15 dB. When every
  load and every write succeeds and every background buffer is usable (it holds at least
  one sample, also after resampling to the sample's rate), the count is
  \<open>5 + min(3, number of background files)\<close> and the files are written in that order to
  pairwise distinct paths: exactly 8 files with three or more background files, exactly
  5 with none. Whenever \<open>augment_sample\<close> returns a count, the count is the number of
  files written.
\<close>

theorem augment_sample_variants:
  "(sf_read w p = Some (audio, sr) \<and>
    (\<forall>q\<in>set bgs. usable_noise w sr q \<and> sf_read w q \<noteq> None) \<and> (\<forall>q. sf_write w q) \<longrightarrow>
      (\<exists>N st'. augment_sample w p bgs pre st = (Inr (5 + min 3 (length bgs)), st') \<and>
         written st' = written st @ fixed_variants w pre (stem p) audio sr @ N \<and>
         map fst N = map (\<lambda>i. variant_path w pre (stem p) (''noise'' @ str_nat i))
                       [0..<min 3 (length bgs)] \<and>
         (\<forall>v\<in>set N. snd (snd v) = sr \<and>
            (\<exists>u noise'. add_noise u audio noise' 15 = Inr (fst (snd v)))) \<and>
         distinct (map fst (fixed_variants w pre (stem p) audio sr @ N))) \<and>
      (3 \<le> length bgs \<longrightarrow>
         fst (augment_sample w p bgs pre st) = Inr 8 \<and>
         length (written (snd (augment_sample w p bgs pre st))) = length (written st) + 8) \<and>
      (bgs = [] \<longrightarrow>
         fst (augment_sample w p bgs pre st) = Inr 5 \<and>
         written (snd (augment_sample w p bgs pre st)) =
           written st @ fixed_variants w pre (stem p) audio sr)) \<and>
   (\<forall>c st'. augment_sample w p bgs pre st = (Inr c, st') \<longrightarrow>
      length (written st') = length (written st) + c)"
proof (intro conjI impI allI)
  fix c st'
  assume "augment_sample w p bgs pre st = (Inr c, st')"
  then show "length (written st') = length (written st) + c"
    by (rule augment_sample_count)
next
  assume h: "sf_read w p = Some (audio, sr) \<and>
    (\<forall>q\<in>set bgs. usable_noise w sr q \<and> sf_read w q \<noteq> None) \<and> (\<forall>q. sf_write w q)"
  then have rd: "sf_read w p = Some (audio, sr)"
    and us: "\<forall>q\<in>set bgs. usable_noise w sr q \<and> sf_read w q \<noteq> None"
    and wr: "\<forall>q. sf_write w q"
    by blast+
  from augment_sample_all_succeed [OF rd us wr, of pre st] obtain N st' where
    n: "augment_sample w p bgs pre st = (Inr (5 + min 3 (length bgs)), st')"
       "written st' = written st @ fixed_variants w pre (stem p) audio sr @ N"
       "map fst N = map (\<lambda>i. variant_path w pre (stem p) (''noise'' @ str_nat i))
                       [0..<min 3 (length bgs)]"
       "\<forall>v\<in>set N. snd (snd v) = sr \<and>
            (\<exists>u noise'. add_noise u audio noise' 15 = Inr (fst (snd v)))"
    by blast
  have "distinct (map fst (fixed_variants w pre (stem p) audio sr) @ map fst N)"
    unfolding n(3) by (rule distinct_variant_paths) simp
  then have d: "distinct (map fst (fixed_variants w pre (stem p) audio sr @ N))"
    by simp
  from n d show "\<exists>N st'. augment_sample w p bgs pre st = (Inr (5 + min 3 (length bgs)), st') \<and>
         written st' = written st @ fixed_variants w pre (stem p) audio sr @ N \<and>
         map fst N = map (\<lambda>i. variant_path w pre (stem p) (''noise'' @ str_nat i))
                       [0..<min 3 (length bgs)] \<and>
         (\<forall>v\<in>set N. snd (snd v) = sr \<and>
            (\<exists>u noise'. add_noise u audio noise' 15 = Inr (fst (snd v)))) \<and>
         distinct (map fst (fixed_variants w pre (stem p) audio sr @ N))"
    by blast
  from n(3) have "length (map fst N) = min 3 (length bgs)"
    by simp
  then have lN: "length N = min 3 (length bgs)"
    by simp
  {
    assume "3 \<le> length bgs"
    with n(1,2) lN show "fst (augment_sample w p bgs pre st) = Inr 8"
      and "length (written (snd (augment_sample w p bgs pre st))) = length (written st) + 8"
      by (simp_all add: length_fixed_variants)
  }
  {
    assume "bgs = []"
    with n(1,2) lN show "fst (augment_sample w p bgs pre st) = Inr 5"
      and "written (snd (augment_sample w p bgs pre st)) =
           written st @ fixed_variants w pre (stem p) audio sr"
      by simp_all
  }
qed

theorem augment_sample_variants_witness:
  "fst (augment_sample (example_world [1, 2, 3] [] (\<lambda>q. True) [hey_wav]) hey_wav
          [bg_wav ''rain'', bg_wav ''cafe'', bg_wav ''street''] ''aug'' start_state) = Inr 8 \<and>
   length (written (snd (augment_sample (example_world [1, 2, 3] [] (\<lambda>q. True) [hey_wav])
          hey_wav [bg_wav ''rain'', bg_wav ''cafe'', bg_wav ''street''] ''aug'' start_state))) = 8 \<and>
   fst (augment_sample (example_world [1, 2, 3] [] (\<lambda>q. True) [hey_wav]) hey_wav
          [] ''aug'' start_state) = Inr 5"
proof -
  let ?w = "example_world [1, 2, 3] [] (\<lambda>q. True) [hey_wav]"
  let ?bgs = "[bg_wav ''rain'', bg_wav ''cafe'', bg_wav ''street'']"
  have h3: "sf_read ?w hey_wav = Some ([1, - 1], 16000) \<and>
      (\<forall>q\<in>set ?bgs. usable_noise ?w 16000 q \<and> sf_read ?w q \<noteq> None) \<and> (\<forall>q. sf_write ?w q)"
    by (simp add: example_reads example_fields usable_noise_def)
  have h0: "sf_read ?w hey_wav = Some ([1, - 1], 16000) \<and>
      (\<forall>q\<in>set []. usable_noise ?w 16000 q \<and> sf_read ?w q \<noteq> None) \<and> (\<forall>q. sf_write ?w q)"
    by (simp add: example_reads example_fields)
  have l3: "3 \<le> length ?bgs"
    by simp
  note t3 = augment_sample_variants [of ?w hey_wav "[1, - 1]" 16000 ?bgs "''aug''" start_state,
      THEN conjunct1, rule_format, OF h3, THEN conjunct2, THEN conjunct1, rule_format, OF l3]
  note t0 = augment_sample_variants [of ?w hey_wav "[1, - 1]" 16000 "[]" "''aug''" start_state,
      THEN conjunct1, rule_format, OF h0, THEN conjunct2, THEN conjunct2, rule_format, OF refl]
  from t3 t0 show ?thesis
    by (simp add: start_state_def)
qed

text \<open>
  C2 as stated fails when the background files load but hold no sample: every load and
  every write succeeds, yet the first noise variant raises ZeroDivisionError, the job
  returns no count and only the five fixed variants are written.
\<close>

theorem augment_sample_empty_noise_files:
  "fst (augment_sample (example_world [] [] (\<lambda>q. True) [hey_wav]) hey_wav
          [bg_wav ''rain'', bg_wav ''cafe'', bg_wav ''street''] ''aug'' start_state)
     = Inl ZeroDivisionError \<and>
   length (written (snd (augment_sample (example_world [] [] (\<lambda>q. True) [hey_wav]) hey_wav
          [bg_wav ''rain'', bg_wav ''cafe'', bg_wav ''street''] ''aug'' start_state))) = 5"
proof -
  let ?w = "example_world [] [] (\<lambda>q. True) [hey_wav]"
  let ?bgs = "[bg_wav ''rain'', bg_wav ''cafe'', bg_wav ''street'']"
  have rd: "sf_read ?w hey_wav = Some ([1, - 1], 16000)"
    by (rule example_reads)
  have ne: "[1, - 1 :: real] \<noteq> []"
    by simp
  have pk: "random_sample (entropy ?w (draws start_state)) ?bgs (min 3 (length ?bgs))
      = bg_wav ''rain'' # [bg_wav ''cafe'', bg_wav ''street'']"
    unfolding example_fields by (rule random_sample_zero_three)
  have em: "sf_read ?w (bg_wav ''rain'') = Some ([], 16000)"
    by (rule example_reads) simp
  from augment_sample_empty_first_pick [OF rd ne pk em, of "''aug''"] obtain st' where
    "augment_sample ?w hey_wav ?bgs ''aug'' start_state = (Inl ZeroDivisionError, st')"
    "written st' = written start_state @
       kept ?w (fixed_variants ?w ''aug'' (stem hey_wav) [1, - 1] 16000)"
    by blast
  then show ?thesis
    by (simp add: kept_def example_fields length_fixed_variants start_state_def)
qed

lemma raised_simps [simp]: "raised (Inl e, st) = Some e" "raised (Inr x, st) = None"
  by (simp_all add: raised_def)

lemma noise_loop_writes_irrelevant:
  assumes "sf_read w' = sf_read w" and "entropy w' = entropy w" and "draws st' = draws st"
  shows "raised (noise_loop w' audio sr pre base ips (c', st')) =
           raised (noise_loop w audio sr pre base ips (c, st)) \<and>
         draws (snd (noise_loop w' audio sr pre base ips (c', st'))) =
           draws (snd (noise_loop w audio sr pre base ips (c, st)))"
  using assms(3)
proof (induction ips arbitrary: c c' st st')
  case Nil
  then show ?case by simp
next
  case (Cons ip rest)
  obtain i q where ip: "ip = (i, q)" by (cases ip)
  show ?case
  proof (cases "sf_read w q")
    case None
    then have None': "sf_read w' q = None"
      by (simp add: assms(1))
    have "draws (logger ERROR (FailedToLoad q) st') = draws (logger ERROR (FailedToLoad q) st)"
      using Cons.prems by (simp add: logger_def)
    from Cons.IH [OF this, of c' c] show ?thesis
      unfolding ip noise_loop_not_loaded [OF None] noise_loop_not_loaded [OF None'] .
  next
    case (Some a)
    obtain noise noise_sr where "a = (noise, noise_sr)" by (cases a)
    with Some have rd: "sf_read w q = Some (noise, noise_sr)" by simp
    then have rd': "sf_read w' q = Some (noise, noise_sr)"
      by (simp add: assms(1))
    show ?thesis
    proof (cases "resample_noise noise noise_sr sr")
      case (Inl e)
      with rd rd' Cons.prems show ?thesis
        by (simp add: ip load_audio_def)
    next
      case rs: (Inr noise')
      show ?thesis
      proof (cases "add_noise (entropy w (draws st)) audio noise' 15")
        case (Inl e)
        with rd rd' rs Cons.prems assms(2) show ?thesis
          by (simp add: ip load_audio_def)
      next
        case an: (Inr augmented)
        from an Cons.prems assms(2)
        have an': "add_noise (entropy w' (draws st')) audio noise' 15 = Inr augmented"
          by simp
        let ?p = "variant_path w pre base (''noise'' @ str_nat i)"
        let ?p' = "variant_path w' pre base (''noise'' @ str_nat i)"
        from save_audio_cases [of w augmented sr ?p "st\<lparr>draws := Suc (draws st)\<rparr>"]
        obtain st3 where
          sv: "save_audio w augmented sr ?p (st\<lparr>draws := Suc (draws st)\<rparr>) = (sf_write w ?p, st3)"
          and d3: "draws st3 = Suc (draws st)"
          by auto
        from save_audio_cases [of w' augmented sr ?p' "st'\<lparr>draws := Suc (draws st')\<rparr>"]
        obtain st3' where
          sv': "save_audio w' augmented sr ?p' (st'\<lparr>draws := Suc (draws st')\<rparr>)
                  = (sf_write w' ?p', st3')"
          and d3': "draws st3' = Suc (draws st')"
          by auto
        from d3 d3' Cons.prems have "draws st3' = draws st3"
          by simp
        from Cons.IH [OF this, of "if sf_write w' ?p' then c' + 1 else c'"
            "if sf_write w ?p then c + 1 else c"]
        show ?thesis
          unfolding ip noise_loop_mixed [OF rd rs an sv] noise_loop_mixed [OF rd' rs an' sv'] .
      qed
    qed
  qed
qed

lemma augment_sample_writes_irrelevant:
  assumes "sf_read w' = sf_read w" and "entropy w' = entropy w" and "draws st' = draws st"
  shows "raised (augment_sample w' p bgs pre st') = raised (augment_sample w p bgs pre st) \<and>
         draws (snd (augment_sample w' p bgs pre st')) =
           draws (snd (augment_sample w p bgs pre st))"
proof (cases "sf_read w p")
  case None
  then have None': "sf_read w' p = None"
    by (simp add: assms(1))
  show ?thesis
    unfolding augment_sample_not_loaded [OF None] augment_sample_not_loaded [OF None']
    using assms(3) by (simp add: logger_def)
next
  case (Some a)
  obtain audio sr where "a = (audio, sr)" by (cases a)
  with Some have rd: "sf_read w p = Some (audio, sr)" by simp
  then have rd': "sf_read w' p = Some (audio, sr)"
    by (simp add: assms(1))
  let ?K = "kept w (fixed_variants w pre (stem p) audio sr)"
  let ?K' = "kept w' (fixed_variants w' pre (stem p) audio sr)"
  let ?ips = "enumerate 0 (random_sample (entropy w (draws st)) bgs (min 3 (length bgs)))"
  from augment_sample_loaded [OF rd, of st pre bgs] obtain st3 where
    d3: "draws st3 = draws st" and
    eq: "augment_sample w p bgs pre st =
           (if bgs \<noteq> [] then
              noise_loop w audio sr pre (stem p) ?ips (length ?K, st3\<lparr>draws := Suc (draws st)\<rparr>)
            else (Inr (length ?K), st3))"
    by blast
  from augment_sample_loaded [OF rd', of st' pre bgs] assms(2,3) obtain st3' where
    d3': "draws st3' = draws st" and
    eq': "augment_sample w' p bgs pre st' =
           (if bgs \<noteq> [] then
              noise_loop w' audio sr pre (stem p) ?ips (length ?K', st3'\<lparr>draws := Suc (draws st)\<rparr>)
            else (Inr (length ?K'), st3'))"
    by auto
  show ?thesis
  proof (cases "bgs = []")
    case True
    with eq eq' d3 d3' show ?thesis by simp
  next
    case False
    have "draws (st3'\<lparr>draws := Suc (draws st)\<rparr>) = draws (st3\<lparr>draws := Suc (draws st)\<rparr>)"
      by simp
    from noise_loop_writes_irrelevant [OF assms(1,2) this, of audio sr pre "stem p" ?ips
        "length ?K'" "length ?K"] False eq eq'
    show ?thesis by simp
  qed
qed

lemma augment_loop_writes_irrelevant:
  assumes "sf_read w' = sf_read w" and "entropy w' = entropy w" and "draws st' = draws st"
  shows "raised (augment_loop w' bgs n ips (t', st')) = raised (augment_loop w bgs n ips (t, st))"
  using assms(3)
proof (induction ips arbitrary: t t' st st')
  case Nil
  show ?case by simp
next
  case (Cons ip rest)
  obtain i p where ip: "ip = (i, p)" by (cases ip)
  let ?r = "augment_sample w p bgs ''aug'' (logger INFO (Augmenting i n p) st)"
  let ?r' = "augment_sample w' p bgs ''aug'' (logger INFO (Augmenting i n p) st')"
  have "draws (logger INFO (Augmenting i n p) st') = draws (logger INFO (Augmenting i n p) st)"
    using Cons.prems by (simp add: logger_def)
  from augment_sample_writes_irrelevant [OF assms(1,2) this, of p bgs "''aug''"]
  have r: "raised ?r' = raised ?r" and d: "draws (snd ?r') = draws (snd ?r)"
    by blast+
  show ?case
  proof (cases "fst ?r")
    case (Inl e)
    with r obtain e' where "fst ?r' = Inl e'" and "e' = e"
      by (cases "fst ?r'") (simp_all add: raised_def)
    with Inl show ?thesis
      by (simp add: ip split_beta)
  next
    case (Inr count)
    with r obtain count' where Inr': "fst ?r' = Inr count'"
      by (cases "fst ?r'") (simp_all add: raised_def)
    from d have "draws (logger INFO (Created count') (snd ?r')) =
        draws (logger INFO (Created count) (snd ?r))"
      by (simp add: logger_def)
    from Cons.IH [OF this, of "t' + count'" "t + count"] Inr Inr' show ?thesis
      by (simp add: ip split_beta)
  qed
qed

lemma augment_all_writes_irrelevant:
  "raised (augment_all (w\<lparr>sf_write := f\<rparr>) st) = raised (augment_all w st)"
proof (cases "positive_glob w = []")
  case True
  then show ?thesis
    by (simp add: augment_all_def)
next
  case False
  let ?st3 = "logger INFO (FoundBackground (length (background_rglob w)))
      (logger INFO (FoundPositive (length (positive_glob w)))
        (logger INFO Banner (logger INFO Title (logger INFO Banner st))))"
  let ?l = "augment_loop w (background_rglob w) (length (positive_glob w))
          (enumerate 1 (positive_glob w)) (0, ?st3)"
  let ?l' = "augment_loop (w\<lparr>sf_write := f\<rparr>) (background_rglob w) (length (positive_glob w))
          (enumerate 1 (positive_glob w)) (0, ?st3)"
  have "raised ?l' = raised ?l"
    by (rule augment_loop_writes_irrelevant) simp_all
  moreover have "raised (augment_all w st) = raised ?l"
    using False by (cases "fst ?l") (simp_all add: augment_all_def Let_def split_beta raised_def)
  moreover have "raised (augment_all (w\<lparr>sf_write := f\<rparr>) st) = raised ?l'"
    using False by (cases "fst ?l'") (simp_all add: augment_all_def Let_def split_beta raised_def)
  ultimately show ?thesis by simp
qed

text \<open>
  C4: a positive sample that does not load makes \<open>augment_sample\<close> return 0 (the failure
  is logged, nothing is written, nothing is raised). For a sample that loads, with usable
  background buffers, \<open>augment_sample\<close> returns for every pattern of load and write
  failures: the files written are exactly the fixed variants whose write succeeds, then
  the noise variants of the selected background files that load and whose write
  succeeds, and the count is their number, so a failing variant contributes zero and the
  variants after it are still produced. With a usable library \<open>augment_all\<close> returns
  normally, reports the number of files written, and the job of every positive sample
  that loads has written its fixed variants, whatever failed in the sibling jobs.
  Without any condition on the buffers: a background file that does not load is skipped
  and the loop goes on with the remaining files, and the outcomes of the writes never
  decide whether a job or the run ends with an exception.
\<close>

theorem load_and_write_failures_are_skipped:
  "(sf_read w p = None \<longrightarrow>
      augment_sample w p bgs pre st = (Inr 0, logger ERROR (FailedToLoad p) st)) \<and>
   (sf_read w p = Some (audio, sr) \<and> (\<forall>q\<in>set bgs. usable_noise w sr q) \<longrightarrow>
      (\<exists>N st'. augment_sample w p bgs pre st =
           (Inr (length (kept w (fixed_variants w pre (stem p) audio sr)) + length N), st') \<and>
         written st' = written st @ kept w (fixed_variants w pre (stem p) audio sr) @ N \<and>
         map fst N = filter (sf_write w) (noise_paths w pre (stem p)
           (enumerate 0 (random_sample (entropy w (draws st)) bgs (min 3 (length bgs))))))) \<and>
   (usable_library w \<longrightarrow>
      (\<exists>M st'. augment_all w st = (Inr (), st') \<and> written st' = written st @ M \<and>
         (positive_glob w \<noteq> [] \<longrightarrow> (INFO, AugmentedSamples (length M)) \<in> set (logged st')) \<and>
         (\<forall>p\<in>set (positive_glob w). \<forall>audio sr. sf_read w p = Some (audio, sr) \<longrightarrow>
            set (kept w (fixed_variants w ''aug'' (stem p) audio sr)) \<subseteq> set M))) \<and>
   (sf_read w q = None \<longrightarrow>
      noise_loop w audio sr pre base ((i, q) # rest) (c, st) =
        noise_loop w audio sr pre base rest (c, logger ERROR (FailedToLoad q) st)) \<and>
   raised (augment_sample (w\<lparr>sf_write := f\<rparr>) p bgs pre st) =
     raised (augment_sample w p bgs pre st) \<and>
   raised (augment_all (w\<lparr>sf_write := f\<rparr>) st) = raised (augment_all w st)"
proof (intro conjI impI)
  assume "sf_read w p = None"
  then show "augment_sample w p bgs pre st = (Inr 0, logger ERROR (FailedToLoad p) st)"
    by (rule augment_sample_not_loaded)
next
  assume "sf_read w q = None"
  then show "noise_loop w audio sr pre base ((i, q) # rest) (c, st) =
        noise_loop w audio sr pre base rest (c, logger ERROR (FailedToLoad q) st)"
    by (rule noise_loop_not_loaded)
next
  show "raised (augment_sample (w\<lparr>sf_write := f\<rparr>) p bgs pre st) =
     raised (augment_sample w p bgs pre st)"
    using augment_sample_writes_irrelevant [of "w\<lparr>sf_write := f\<rparr>" w st st p bgs pre]
    by simp
next
  show "raised (augment_all (w\<lparr>sf_write := f\<rparr>) st) = raised (augment_all w st)"
    by (rule augment_all_writes_irrelevant)
next
  assume "sf_read w p = Some (audio, sr) \<and> (\<forall>q\<in>set bgs. usable_noise w sr q)"
  then have rd: "sf_read w p = Some (audio, sr)" and us: "\<forall>q\<in>set bgs. usable_noise w sr q"
    by blast+
  from augment_sample_usable [OF rd us, of pre st]
  show "\<exists>N st'. augment_sample w p bgs pre st =
           (Inr (length (kept w (fixed_variants w pre (stem p) audio sr)) + length N), st') \<and>
         written st' = written st @ kept w (fixed_variants w pre (stem p) audio sr) @ N \<and>
         map fst N = filter (sf_write w) (noise_paths w pre (stem p)
           (enumerate 0 (random_sample (entropy w (draws st)) bgs (min 3 (length bgs)))))"
    by blast
next
  assume "usable_library w"
  then show "\<exists>M st'. augment_all w st = (Inr (), st') \<and> written st' = written st @ M \<and>
         (positive_glob w \<noteq> [] \<longrightarrow> (INFO, AugmentedSamples (length M)) \<in> set (logged st')) \<and>
         (\<forall>p\<in>set (positive_glob w). \<forall>audio sr. sf_read w p = Some (audio, sr) \<longrightarrow>
            set (kept w (fixed_variants w ''aug'' (stem p) audio sr)) \<subseteq> set M)"
    by (rule augment_all_usable)
qed

theorem load_and_write_failures_are_skipped_witness:
  "augment_sample
     (example_world [1, 2, 3] [bg_wav ''rain''] (\<lambda>q. stem q \<noteq> ''aug_hey_vol0.7'')
        [Path ''data/positive'' ''gone'' ''.wav'', hey_wav])
     (Path ''data/positive'' ''gone'' ''.wav'')
     [bg_wav ''rain'', bg_wav ''cafe'', bg_wav ''street''] ''aug'' start_state
     = (Inr 0, logger ERROR (FailedToLoad (Path ''data/positive'' ''gone'' ''.wav'')) start_state) \<and>
   fst (augment_sample
     (example_world [1, 2, 3] [bg_wav ''rain''] (\<lambda>q. stem q \<noteq> ''aug_hey_vol0.7'')
        [Path ''data/positive'' ''gone'' ''.wav'', hey_wav])
     hey_wav [bg_wav ''rain'', bg_wav ''cafe'', bg_wav ''street''] ''aug'' start_state) = Inr 6 \<and>
   (\<exists>M st'. augment_all
     (example_world [1, 2, 3] [bg_wav ''rain''] (\<lambda>q. stem q \<noteq> ''aug_hey_vol0.7'')
        [Path ''data/positive'' ''gone'' ''.wav'', hey_wav]) start_state = (Inr (), st') \<and>
      written st' = M \<and> (INFO, AugmentedSamples (length M)) \<in> set (logged st')) \<and>
   noise_loop
     (example_world [1, 2, 3] [bg_wav ''rain''] (\<lambda>q. stem q \<noteq> ''aug_hey_vol0.7'')
        [Path ''data/positive'' ''gone'' ''.wav'', hey_wav])
     [1, - 1] 16000 ''aug'' ''hey'' [(0, bg_wav ''rain'')] (4, start_state)
     = noise_loop
     (example_world [1, 2, 3] [bg_wav ''rain''] (\<lambda>q. stem q \<noteq> ''aug_hey_vol0.7'')
        [Path ''data/positive'' ''gone'' ''.wav'', hey_wav])
     [1, - 1] 16000 ''aug'' ''hey'' [] (4, logger ERROR (FailedToLoad (bg_wav ''rain'')) start_state) \<and>
   raised (augment_all
     ((example_world [1, 2, 3] [bg_wav ''rain''] (\<lambda>q. stem q \<noteq> ''aug_hey_vol0.7'')
        [Path ''data/positive'' ''gone'' ''.wav'', hey_wav])\<lparr>sf_write := \<lambda>q. False\<rparr>) start_state)
     = raised (augment_all
     (example_world [1, 2, 3] [bg_wav ''rain''] (\<lambda>q. stem q \<noteq> ''aug_hey_vol0.7'')
        [Path ''data/positive'' ''gone'' ''.wav'', hey_wav]) start_state)"
proof -
  let ?gone = "Path ''data/positive'' ''gone'' ''.wav''"
  define w where "w = example_world [1, 2, 3] [bg_wav ''rain'']
        (\<lambda>q. stem q \<noteq> ''aug_hey_vol0.7'') [?gone, hey_wav]"
  let ?w = w
  let ?bgs = "[bg_wav ''rain'', bg_wav ''cafe'', bg_wav ''street'']"
  have gone: "sf_read ?w ?gone = None"
    by (simp add: w_def example_world_def hey_wav_def)
  have rd: "sf_read ?w hey_wav = Some ([1, - 1], 16000)"
    unfolding w_def by (rule example_reads)
  have rain: "sf_read ?w (bg_wav ''rain'') = None"
    unfolding w_def by (rule example_reads) simp
  have cafe: "sf_read ?w (bg_wav ''cafe'') = Some ([1, 2, 3], 16000)"
    unfolding w_def by (rule example_reads) (simp add: bg_wav_def)
  have street: "sf_read ?w (bg_wav ''street'') = Some ([1, 2, 3], 16000)"
    unfolding w_def by (rule example_reads) (simp add: bg_wav_def)
  have fields: "sf_write w = (\<lambda>q. stem q \<noteq> ''aug_hey_vol0.7'')" "\<And>k. entropy w k = 0"
    "positive_glob w = [?gone, hey_wav]" "background_rglob w = ?bgs"
    "augmented_dir w = ''data/augmented''"
    unfolding w_def by (rule example_fields)+
  have us: "\<forall>q\<in>set ?bgs. usable_noise ?w 16000 q"
    by (simp add: usable_noise_def rain cafe street)
  have lib: "usable_library ?w"
    unfolding usable_library_def fields using us by (simp add: gone rd)
  note t = load_and_write_failures_are_skipped [of ?w _ ?bgs "''aug''" start_state]
  from t [of ?gone, THEN conjunct1, rule_format, OF gone]
  have a: "augment_sample ?w ?gone ?bgs ''aug'' start_state
      = (Inr 0, logger ERROR (FailedToLoad ?gone) start_state)" .
  from t [of hey_wav "[1, - 1]" 16000, THEN conjunct2, THEN conjunct1, rule_format,
      OF conjI [OF rd us]]
  obtain N :: "(path \<times> np_array \<times> nat) list" and st' where
    n: "augment_sample ?w hey_wav ?bgs ''aug'' start_state =
          (Inr (length (kept ?w (fixed_variants ?w ''aug'' (stem hey_wav) [1, - 1] 16000))
             + length N), st')"
       "map fst N = filter (sf_write ?w) (noise_paths ?w ''aug'' (stem hey_wav)
           (enumerate 0 (random_sample (entropy ?w (draws start_state)) ?bgs
              (min 3 (length ?bgs)))))"
    by blast
  have k: "length (kept ?w (fixed_variants ?w ''aug'' (stem hey_wav) [1, - 1] 16000)) = 4"
    by (simp add: kept_def fixed_variants_def variant_path_def fields hey_wav_def)
  from n(2) have "length (map fst N) = 2"
    by (simp add: fields random_sample_zero noise_paths_Cons rain cafe street
        variant_path_def hey_wav_def noise_paths_def)
  then have "length N = 2"
    by simp
  with n(1) k have b: "fst (augment_sample ?w hey_wav ?bgs ''aug'' start_state) = Inr 6"
    by simp
  from t [of hey_wav "[1, - 1]" 16000, THEN conjunct2, THEN conjunct2, THEN conjunct1,
      rule_format, OF lib]
  have c: "\<exists>M st'. augment_all ?w start_state = (Inr (), st') \<and>
      written st' = M \<and> (INFO, AugmentedSamples (length M)) \<in> set (logged st')"
    by (auto simp: fields start_state_def)
  note d = t [where q = "bg_wav ''rain''" and audio = "[1, - 1]" and sr = 16000
      and base = "''hey''" and i = 0 and rest = "[]" and c = 4,
      THEN conjunct2, THEN conjunct2, THEN conjunct2, THEN conjunct1, rule_format, OF rain]
  note e = t [where f = "\<lambda>q. False", THEN conjunct2, THEN conjunct2, THEN conjunct2,
      THEN conjunct2, THEN conjunct2]
  from a b c d e show ?thesis
    unfolding w_def by blast
qed

text \<open>
  C8: when the positive directory lists no file, \<open>augment_all\<close> logs the error
  \<open>NoPositiveSamples\<close> after the counts of files found, writes no file, runs no job and
  returns normally.
\<close>

theorem augment_all_no_positive_samples:
  "positive_glob w = [] \<Longrightarrow>
   augment_all w st =
     (Inr (), st\<lparr>logged := logged st @
        [(INFO, Banner), (INFO, Title), (INFO, Banner), (INFO, FoundPositive 0),
         (INFO, FoundBackground (length (background_rglob w))),
         (ERROR, NoPositiveSamples)]\<rparr>) \<and>
   written (snd (augment_all w st)) = written st"
  by (simp add: augment_all_def logger_def)

theorem augment_all_no_positive_samples_witness:
  "augment_all (example_world [1, 2, 3] [] (\<lambda>q. True) []) start_state =
     (Inr (), start_state\<lparr>logged :=
        [(INFO, Banner), (INFO, Title), (INFO, Banner), (INFO, FoundPositive 0),
         (INFO, FoundBackground 3), (ERROR, NoPositiveSamples)]\<rparr>) \<and>
   written (snd (augment_all (example_world [1, 2, 3] [] (\<lambda>q. True) []) start_state)) = []"
proof -
  have "positive_glob (example_world [1, 2, 3] [] (\<lambda>q. True) []) = []"
    by (rule example_fields)
  from augment_all_no_positive_samples [OF this, of start_state] show ?thesis
    by (simp add: example_fields start_state_def)
qed



end
